theory Spec2Isabelle
  imports Complex_Main "HOL-Library.AList"
begin

section \<open>Python values and errors\<close>

text \<open>
  The parts of the node runtime verified here are Python. Exceptions are values of
  \<open>py_error\<close>; a function that may raise returns \<open>py_error + 'a\<close>. Python ints are
  \<open>int\<close>, \<open>bytes\<close> and \<open>str\<close> are \<open>string\<close>. Clock readings, the epoch progress and
  quotients of two counts are exact rationals; the floats of the scoring code are a
  parameter (see \<open>float_ops\<close>).
\<close>

datatype py_error =
  KeyError | TypeError | AttributeError | ZeroDivisionError | StatisticsError | OverflowError | ValueError

datatype pyval = PyNone | PyBool bool | PyInt int | PyStr string

type_synonym pydict = "string \<rightharpoonup> pyval"

definition getitem :: "pydict \<Rightarrow> string \<Rightarrow> py_error + pyval" where
  \<comment> \<open>\<open>d[k]\<close>: raises KeyError on a missing key.\<close>
  "getitem d k = (case d k of None \<Rightarrow> Inl KeyError | Some v \<Rightarrow> Inr v)"

definition truthy :: "pyval \<Rightarrow> bool" where
  \<comment> \<open>Python truthiness, as used by \<open>if v:\<close>.\<close>
  "truthy v = (case v of PyNone \<Rightarrow> False | PyBool b \<Rightarrow> b | PyInt i \<Rightarrow> i \<noteq> 0 | PyStr s \<Rightarrow> s \<noteq> [])"

section \<open>Formatting integers\<close>

text \<open>The decimal text of an integer, as an f-string writes it.\<close>

definition digit_char :: "nat \<Rightarrow> char" where
  "digit_char d = ''0123456789'' ! d"

function str_of_nat :: "nat \<Rightarrow> string" where
  "str_of_nat n = (if n < 10 then [digit_char n] else str_of_nat (n div 10) @ [digit_char (n mod 10)])"
  by pat_completeness auto
termination
  by (relation "measure id") auto

declare str_of_nat.simps [simp del]

definition str_of_int :: "int \<Rightarrow> string" where
  "str_of_int i = (if i < 0 then CHR ''-'' # str_of_nat (nat (- i)) else str_of_nat (nat i))"

section \<open>mesh/utils/proof\_of\_stake.py: the on-chain reply\<close>

text \<open>
  The blockchain client is an interface: \<open>hypertensor.proof_of_stake(subnet_id, peer_id_vector,
  min_class)\<close> returns a dictionary. It is a parameter of the model.
\<close>

type_synonym hypertensor_pos = "nat \<Rightarrow> nat list \<Rightarrow> nat \<Rightarrow> pydict"

definition is_peer_staked :: "hypertensor_pos \<Rightarrow> nat \<Rightarrow> nat \<Rightarrow> nat list \<Rightarrow> py_error + pyval" where
  "is_peer_staked hypertensor subnet_id min_class peer_id_vector =
     (let result = hypertensor subnet_id peer_id_vector min_class in
      if result ''result'' = None then Inr (PyBool False)
      else case getitem result ''result'' of Inl e \<Rightarrow> Inl e | Inr v1 \<Rightarrow>
           if v1 \<noteq> PyBool True \<and>
              (case getitem result ''result'' of Inl e \<Rightarrow> True | Inr v2 \<Rightarrow> v2 \<noteq> PyBool False)
           then (case getitem result ''result'' of Inl e \<Rightarrow> Inl e | Inr v2 \<Rightarrow> Inr (PyBool False))
           else getitem result ''result'')"

definition is_staked :: "hypertensor_pos \<Rightarrow> nat \<Rightarrow> nat \<Rightarrow> nat list \<Rightarrow> py_error + pyval" where
  "is_staked hypertensor subnet_id min_class peer_id_vector =
     is_peer_staked hypertensor subnet_id min_class peer_id_vector"

section \<open>mesh/subnet/consensus/utils.py\<close>

datatype SubnetNodeConsensusData =
  SubnetNodeConsensusData (subnet_node_id: int) (score: int)

definition compare_consensus_data ::
  "SubnetNodeConsensusData list \<Rightarrow> SubnetNodeConsensusData list \<Rightarrow> rat" where
  "compare_consensus_data my_data validator_data =
     (let validator_data_set = set validator_data;
          my_data_set = set my_data;
          intersection = my_data_set \<inter> validator_data_set;
          union = my_data_set \<union> validator_data_set
      in if union = {} then 100
         else of_nat (card intersection) / of_nat (card union))"

section \<open>mesh/subnet/utils/mock\_commit\_reveal.py\<close>

datatype DHTRecordRequestType = GET | POST

record DHTRecord =
  key :: string
  subkey :: "string option"
  record_value :: string
  expiration_time :: rat

record EpochData =
  epoch :: int
  percent_complete :: rat

definition get_verifier_commit_key :: "int \<Rightarrow> string" where
  "get_verifier_commit_key e = ''verifier_commit_epoch_'' @ str_of_int e"

definition get_verifier_reveal_key :: "int \<Rightarrow> string" where
  "get_verifier_reveal_key e = ''verifier_reveal_epoch_'' @ str_of_int e"

definition get_scores_commit_key :: "int \<Rightarrow> string" where
  "get_scores_commit_key e = ''scores_commit_epoch_'' @ str_of_int e"

definition get_scores_reveal_key :: "int \<Rightarrow> string" where
  "get_scores_reveal_key e = ''scores_reveal_epoch_'' @ str_of_int e"

definition BLOCK_SECS :: rat where "BLOCK_SECS = 6"
definition EPOCH_LENGTH :: rat where "EPOCH_LENGTH = 300"

definition MAX_HEART_BEAT_TIME :: rat where
  "MAX_HEART_BEAT_TIME = BLOCK_SECS * EPOCH_LENGTH * (11 / 10)"
definition MAX_COMMIT_TIME :: rat where
  "MAX_COMMIT_TIME = BLOCK_SECS * EPOCH_LENGTH * 5"
definition MAX_REVEAL_TIME :: rat where
  "MAX_REVEAL_TIME = BLOCK_SECS * EPOCH_LENGTH * 5"

definition VERIFIER_COMMIT_DEADLINE :: rat where "VERIFIER_COMMIT_DEADLINE = 1 / 2"
definition VERIFIER_REVEAL_DEADLINE :: rat where "VERIFIER_REVEAL_DEADLINE = 3 / 5"
definition SCORES_REVEAL_DEADLINE :: rat where "SCORES_REVEAL_DEADLINE = 3 / 5"

definition MAX_EPOCH_HISTORY :: int where "MAX_EPOCH_HISTORY = 5"

text \<open>
  \<open>_peer_store_tracker\<close> is a \<open>defaultdict\<close> of \<open>defaultdict\<close>s of \<open>defaultdict(int)\<close>:
  every read of a missing entry gives 0, so it is a total function from epoch, key type and
  peer to a count. Deleting an epoch resets all its counts to 0.
\<close>

type_synonym tracker = "int \<Rightarrow> string \<Rightarrow> string \<Rightarrow> nat"

definition empty_tracker :: tracker where
  "empty_tracker = (\<lambda>e k p. 0)"

definition per_peer_epoch_limits :: "string \<rightharpoonup> nat" where
  "per_peer_epoch_limits = map_of
     [(''node'', 100), (''verifier_commit'', 1), (''verifier_reveal'', 1),
      (''scores_reveal'', 1), (''scores_commit'', 1)]"

definition has_exceeded_store_limit :: "tracker \<Rightarrow> string \<Rightarrow> string \<Rightarrow> int \<Rightarrow> bool" where
  "has_exceeded_store_limit tr peer_id key_type ep =
     (let limit = (case per_peer_epoch_limits key_type of None \<Rightarrow> 1 | Some l \<Rightarrow> l);
          count = tr ep key_type peer_id
      in if count \<ge> limit then True else False)"

definition record_peer_store :: "tracker \<Rightarrow> string \<Rightarrow> string \<Rightarrow> int \<Rightarrow> tracker" where
  "record_peer_store tr peer_id key_type ep =
     tr(ep := (tr ep)(key_type := (tr ep key_type)(peer_id := tr ep key_type peer_id + 1)))"

definition cleanup_old_epochs :: "tracker \<Rightarrow> int \<Rightarrow> tracker" where
  "cleanup_old_epochs tr current_epoch =
     (\<lambda>e. if e < current_epoch - MAX_EPOCH_HISTORY then (\<lambda>k p. 0) else tr e)"

text \<open>
  \<open>DHTID.generate(source=...).to_bytes()\<close> is a hash of the source string; it is the
  parameter \<open>dhtid\<close>. The dictionary literal \<open>valid_keys\<close> keeps, for a repeated key, the
  value written last.
\<close>

definition valid_keys :: "(string \<Rightarrow> string) \<Rightarrow> int \<Rightarrow> (string \<times> string) list" where
  "valid_keys dhtid current_epoch =
     [(dhtid ''node'', ''node''),
      (dhtid (''scores_reveal_epoch_'' @ str_of_int current_epoch), ''scores_reveal''),
      (dhtid (''verifier_commit_epoch_'' @ str_of_int current_epoch), ''verifier_commit''),
      (dhtid (''verifier_reveal_epoch_'' @ str_of_int current_epoch), ''verifier_reveal''),
      (dhtid (''scores_commit_epoch_'' @ str_of_int current_epoch), ''scores_commit'')]"

definition get_key_type :: "(string \<Rightarrow> string) \<Rightarrow> DHTRecord \<Rightarrow> int \<Rightarrow> string option" where
  "get_key_type dhtid record current_epoch =
     map_of (rev (valid_keys dhtid current_epoch)) (key record)"

text \<open>
  The deadline and expiration checks of \<open>__call__\<close>: \<open>False\<close> where the source returns
  \<open>False\<close>, \<open>True\<close> where it falls through to \<open>_record_peer_store\<close>.
\<close>

definition deadlines_and_expirations :: "string \<Rightarrow> rat \<Rightarrow> rat \<Rightarrow> rat \<Rightarrow> bool" where
  "deadlines_and_expirations key_type pc expiration dht_time =
     (if key_type = ''node'' then
        (let max_expiration = dht_time + MAX_HEART_BEAT_TIME in
         if expiration > max_expiration then False else True)
      else if key_type = ''verifier_commit'' then
        (if pc > VERIFIER_COMMIT_DEADLINE then False
         else if expiration > dht_time + MAX_COMMIT_TIME then False else True)
      else if key_type = ''verifier_reveal'' then
        (if pc \<le> VERIFIER_COMMIT_DEADLINE \<or> pc > VERIFIER_REVEAL_DEADLINE then False
         else if expiration > dht_time + MAX_REVEAL_TIME then False else True)
      else if key_type = ''scores_reveal'' then
        (if pc \<le> VERIFIER_COMMIT_DEADLINE \<or> pc > SCORES_REVEAL_DEADLINE then False
         else if expiration > dht_time + MAX_REVEAL_TIME then False else True)
      else if key_type = ''scores_commit'' then
        (if pc \<le> SCORES_REVEAL_DEADLINE then False
         else if expiration > dht_time + MAX_COMMIT_TIME then False else True)
      else True)"

text \<open>
  What one call reads from outside: the result of \<open>self.epoch_data()\<close> (the chain may
  raise) and of \<open>get_dht_time()\<close>.
\<close>

record call_env =
  subnet_epoch_data :: "py_error + EpochData"
  dht_time :: rat

text \<open>
  \<open>extract_peer_id_from_record_validator\<close> (mesh/utils/key.py) is the parameter
  \<open>extract_peer_id\<close>: it returns a peer id, \<open>None\<close>, or raises. The body of the \<open>try\<close>:
\<close>

definition call_body ::
  "(string option \<Rightarrow> py_error + string option) \<Rightarrow> (string \<Rightarrow> string) \<Rightarrow>
   tracker \<Rightarrow> call_env \<Rightarrow> DHTRecord \<Rightarrow> DHTRecordRequestType \<Rightarrow> py_error + (bool \<times> tracker)" where
  "call_body extract_peer_id dhtid tr env record ty =
     (case extract_peer_id (subkey record) of
        Inl e \<Rightarrow> Inl e
      | Inr None \<Rightarrow> Inr (False, tr)
      | Inr (Some caller_peer_id) \<Rightarrow>
          if ty = GET then Inr (True, tr)
          else
            (case subnet_epoch_data env of
               Inl e \<Rightarrow> Inl e
             | Inr epoch_data \<Rightarrow>
                 let current_epoch = epoch epoch_data;
                     pc = percent_complete epoch_data;
                     tr1 = cleanup_old_epochs tr current_epoch
                 in (case get_key_type dhtid record current_epoch of
                       None \<Rightarrow> Inr (False, tr1)
                     | Some key_type \<Rightarrow>
                         if has_exceeded_store_limit tr1 caller_peer_id key_type current_epoch
                         then Inr (False, tr1)
                         else if \<not> deadlines_and_expirations key_type pc
                                     (expiration_time record) (dht_time env)
                         then Inr (False, tr1)
                         else Inr (True, record_peer_store tr1 caller_peer_id key_type current_epoch))))"

text \<open>\<open>__call__\<close>: any exception is caught and answered with \<open>False\<close>.\<close>

definition predicate_call ::
  "(string option \<Rightarrow> py_error + string option) \<Rightarrow> (string \<Rightarrow> string) \<Rightarrow>
   tracker \<Rightarrow> call_env \<Rightarrow> DHTRecord \<Rightarrow> DHTRecordRequestType \<Rightarrow> bool \<times> tracker" where
  "predicate_call extract_peer_id dhtid tr env record ty =
     (case call_body extract_peer_id dhtid tr env record ty of
        Inl e \<Rightarrow> (False, tr)
      | Inr r \<Rightarrow> r)"

text \<open>
  A sequence of calls on one validator instance, each with what it reads from outside,
  and the number of accepted stores of one peer for one key type at one epoch.
\<close>

type_synonym call = "call_env \<times> DHTRecord \<times> DHTRecordRequestType"

fun run_calls ::
  "(string option \<Rightarrow> py_error + string option) \<Rightarrow> (string \<Rightarrow> string) \<Rightarrow>
   tracker \<Rightarrow> call list \<Rightarrow> bool list \<times> tracker" where
  "run_calls extract_peer_id dhtid tr [] = ([], tr)"
| "run_calls extract_peer_id dhtid tr ((env, r, ty) # cs) =
     (let (ok, tr1) = predicate_call extract_peer_id dhtid tr env r ty;
          (oks, tr2) = run_calls extract_peer_id dhtid tr1 cs
      in (ok # oks, tr2))"

definition is_store_of ::
  "(string option \<Rightarrow> py_error + string option) \<Rightarrow> (string \<Rightarrow> string) \<Rightarrow>
   call \<Rightarrow> int \<Rightarrow> string \<Rightarrow> string \<Rightarrow> bool" where
  "is_store_of extract_peer_id dhtid c E kt pid =
     (case c of (env, r, ty) \<Rightarrow>
        ty = POST \<and> extract_peer_id (subkey r) = Inr (Some pid) \<and>
        (case subnet_epoch_data env of Inl e \<Rightarrow> False
         | Inr ed \<Rightarrow> epoch ed = E \<and> get_key_type dhtid r E = Some kt))"

fun accepted_stores ::
  "(string option \<Rightarrow> py_error + string option) \<Rightarrow> (string \<Rightarrow> string) \<Rightarrow>
   tracker \<Rightarrow> call list \<Rightarrow> int \<Rightarrow> string \<Rightarrow> string \<Rightarrow> nat" where
  "accepted_stores extract_peer_id dhtid tr [] E kt pid = 0"
| "accepted_stores extract_peer_id dhtid tr ((env, r, ty) # cs) E kt pid =
     (let (ok, tr1) = predicate_call extract_peer_id dhtid tr env r ty
      in (if ok \<and> is_store_of extract_peer_id dhtid (env, r, ty) E kt pid then 1 else 0)
         + accepted_stores extract_peer_id dhtid tr1 cs E kt pid)"

definition epoch_at_most :: "int \<Rightarrow> call \<Rightarrow> bool" where
  "epoch_at_most E c =
     (case c of (env, r, ty) \<Rightarrow>
        (case subnet_epoch_data env of Inl e \<Rightarrow> True | Inr ed \<Rightarrow> epoch ed \<le> E))"

definition store_limit :: "string \<Rightarrow> nat" where
  \<comment> \<open>\<open>self.per_peer_epoch_limits.get(key_type, 1)\<close>\<close>
  "store_limit key_type = (case per_peer_epoch_limits key_type of None \<Rightarrow> 1 | Some l \<Rightarrow> l)"

text \<open>
  An instance of the parameter \<open>extract_peer_id\<close> for concrete inputs: a record without a
  subkey has no caller, and otherwise the subkey's bytes name the caller.
\<close>

definition subkey_as_peer_id :: "string option \<Rightarrow> py_error + string option" where
  "subkey_as_peer_id sk = Inr sk"

text \<open>Concrete inputs: a task commit for epoch 7 and the chain at a given epoch and progress.\<close>

definition rec_commit :: DHTRecord where
  "rec_commit = \<lparr>key = ''verifier_commit_epoch_7'', subkey = Some ''QmPeerA'',
                 record_value = ''digest'', expiration_time = 1000\<rparr>"

definition env_at :: "int \<Rightarrow> rat \<Rightarrow> call_env" where
  "env_at e p = \<lparr>subnet_epoch_data = Inr \<lparr>epoch = e, percent_complete = p\<rparr>, dht_time = 500\<rparr>"

definition rec_no_subkey :: DHTRecord where
  "rec_no_subkey = \<lparr>key = ''node'', subkey = None,
                    record_value = ''heartbeat'', expiration_time = 1000\<rparr>"

section \<open>mesh/utils/proof\_of\_stake.py: the caches\<close>

text \<open>
  A peer id is identified with its base58 text. The two caches map a peer id to the time
  of its last successful and of its last failed on-chain check. The cooldowns are set to
  300 in \<open>__init__\<close> and never assigned again.
\<close>

record ProofOfStake =
  peer_id_to_last_successful_pos :: "string \<rightharpoonup> rat"
  peer_id_to_last_failed_pos :: "string \<rightharpoonup> rat"

definition pos_success_cooldown :: rat where "pos_success_cooldown = 300"
definition pos_fail_cooldown :: rat where "pos_fail_cooldown = 300"

definition init_ProofOfStake :: ProofOfStake where
  "init_ProofOfStake =
     \<lparr>peer_id_to_last_successful_pos = Map.empty, peer_id_to_last_failed_pos = Map.empty\<rparr>"

definition get_peer_id_last_success :: "ProofOfStake \<Rightarrow> string \<Rightarrow> rat" where
  "get_peer_id_last_success self peer_id =
     (case peer_id_to_last_successful_pos self peer_id of None \<Rightarrow> 0 | Some t \<Rightarrow> t)"

definition update_peer_id_success :: "ProofOfStake \<Rightarrow> string \<Rightarrow> rat \<Rightarrow> ProofOfStake" where
  \<comment> \<open>the third argument is what \<open>get_dht_time()\<close> returns inside the method\<close>
  "update_peer_id_success self peer_id t =
     self\<lparr>peer_id_to_last_successful_pos := (peer_id_to_last_successful_pos self)(peer_id \<mapsto> t),
          peer_id_to_last_failed_pos := (peer_id_to_last_failed_pos self)(peer_id := None)\<rparr>"

definition get_peer_id_last_fail :: "ProofOfStake \<Rightarrow> string \<Rightarrow> rat" where
  "get_peer_id_last_fail self peer_id =
     (case peer_id_to_last_failed_pos self peer_id of None \<Rightarrow> 0 | Some t \<Rightarrow> t)"

definition update_peer_id_fail :: "ProofOfStake \<Rightarrow> string \<Rightarrow> rat \<Rightarrow> ProofOfStake" where
  "update_peer_id_fail self peer_id t =
     self\<lparr>peer_id_to_last_failed_pos := (peer_id_to_last_failed_pos self)(peer_id \<mapsto> t),
          peer_id_to_last_successful_pos := (peer_id_to_last_successful_pos self)(peer_id := None)\<rparr>"

definition to_vec_u8 :: "string \<Rightarrow> nat list" where
  "to_vec_u8 s = map of_char s"

text \<open>
  \<open>proof_of_stake\<close> reads the clock once on entry (\<open>now\<close>) and once more inside the cache
  update (\<open>later\<close>). \<open>get_peer_id_from_pubkey\<close> is the parameter \<open>get_peer_id\<close>. The result
  carries the new caches and the list of blockchain queries the call issued.
\<close>

definition proof_of_stake ::
  "('pk \<Rightarrow> string option) \<Rightarrow> hypertensor_pos \<Rightarrow> nat \<Rightarrow> nat \<Rightarrow>
   ProofOfStake \<Rightarrow> rat \<Rightarrow> rat \<Rightarrow> 'pk \<Rightarrow> py_error + (bool \<times> ProofOfStake \<times> nat list list)" where
  "proof_of_stake get_peer_id hypertensor subnet_id min_class self now later public_key =
     (case get_peer_id public_key of
        None \<Rightarrow> Inr (False, self, [])
      | Some peer_id \<Rightarrow>
          let last_fail = get_peer_id_last_fail self peer_id in
          if last_fail \<noteq> 0 \<and> now - last_fail < pos_fail_cooldown then Inr (False, self, [])
          else
            let last_success = get_peer_id_last_success self peer_id in
            if last_success \<noteq> 0 \<and> now - last_success < pos_success_cooldown
            then Inr (True, self, [])
            else
              let peer_id_vec = to_vec_u8 peer_id in
              (case is_staked hypertensor subnet_id min_class peer_id_vec of
                 Inl e \<Rightarrow> Inl e
               | Inr staked \<Rightarrow>
                   if truthy staked
                   then Inr (True, update_peer_id_success self peer_id later, [peer_id_vec])
                   else Inr (False, update_peer_id_fail self peer_id later, [peer_id_vec])))"

text \<open>The states an instance can be in: fresh, or after any of its three mutating methods.\<close>

inductive pos_reachable ::
  "('pk \<Rightarrow> string option) \<Rightarrow> hypertensor_pos \<Rightarrow> nat \<Rightarrow> nat \<Rightarrow> ProofOfStake \<Rightarrow> bool"
  for get_peer_id :: "'pk \<Rightarrow> string option" and hypertensor :: hypertensor_pos
    and subnet_id :: nat and min_class :: nat where
  pos_init: "pos_reachable get_peer_id hypertensor subnet_id min_class init_ProofOfStake"
| pos_call: "pos_reachable get_peer_id hypertensor subnet_id min_class s \<Longrightarrow>
     proof_of_stake get_peer_id hypertensor subnet_id min_class s now later pk = Inr (b, s', qs) \<Longrightarrow>
     pos_reachable get_peer_id hypertensor subnet_id min_class s'"
| pos_success: "pos_reachable get_peer_id hypertensor subnet_id min_class s \<Longrightarrow>
     pos_reachable get_peer_id hypertensor subnet_id min_class (update_peer_id_success s p t)"
| pos_fail: "pos_reachable get_peer_id hypertensor subnet_id min_class s \<Longrightarrow>
     pos_reachable get_peer_id hypertensor subnet_id min_class (update_peer_id_fail s p t)"

text \<open>
  A sequence of later calls (clock on entry, clock at the update, public key), the condition
  that each of them is for another peer or still within 300 seconds of a given time, and the
  two caches having no peer in common.
\<close>

definition caches_disjoint :: "ProofOfStake \<Rightarrow> bool" where
  "caches_disjoint s \<longleftrightarrow>
     dom (peer_id_to_last_successful_pos s) \<inter> dom (peer_id_to_last_failed_pos s) = {}"

fun pos_run ::
  "('pk \<Rightarrow> string option) \<Rightarrow> hypertensor_pos \<Rightarrow> nat \<Rightarrow> nat \<Rightarrow>
   ProofOfStake \<Rightarrow> (rat \<times> rat \<times> 'pk) list \<Rightarrow> ProofOfStake" where
  "pos_run get_peer_id hypertensor subnet_id min_class s [] = s"
| "pos_run get_peer_id hypertensor subnet_id min_class s ((now, later, pk) # cs) =
     (case proof_of_stake get_peer_id hypertensor subnet_id min_class s now later pk of
        Inl e \<Rightarrow> pos_run get_peer_id hypertensor subnet_id min_class s cs
      | Inr (b, s', qs) \<Rightarrow> pos_run get_peer_id hypertensor subnet_id min_class s' cs)"

definition other_or_within ::
  "('pk \<Rightarrow> string option) \<Rightarrow> 'pk \<Rightarrow> rat \<Rightarrow> (rat \<times> rat \<times> 'pk) \<Rightarrow> bool" where
  "other_or_within get_peer_id pk t0 c =
     (case c of (now, later, k) \<Rightarrow> get_peer_id k \<noteq> get_peer_id pk \<or> now - t0 < 300)"

text \<open>Concrete inputs: a chain that reports one peer as not staked and every other as staked.\<close>

definition chain_rejecting :: "string \<Rightarrow> hypertensor_pos" where
  "chain_rejecting bad = (\<lambda>sid vec mc. [''result'' \<mapsto> PyBool (vec \<noteq> to_vec_u8 bad)])"

section \<open>mesh/subnet/consensus/consensus.py: waiting for activation\<close>

text \<open>
  \<open>run_activate_subnet\<close> loops until the subnet is active, the stop event is set, or too
  many reads of the subnet fail. One iteration reads the stop event, the subnet slot (when
  not yet known), the epoch and (in a new epoch) the subnet info; the reads of one
  iteration are one \<open>activation_reads\<close>. The loop may run forever, so the model runs it
  over a finite list of iterations' reads and answers \<open>None\<close> when it is still waiting at
  the end of the list.
\<close>

datatype slot_reply = SlotNone | SlotInt int | SlotRaises

record activation_reads =
  read_stop :: bool
  read_slot :: slot_reply
  read_epoch :: int
  read_subnet_info :: "string option"

record activation_state =
  slot :: "int option"
  last_epoch :: "int option"
  errors_count :: nat
  shutdown_called :: bool

definition max_errors :: nat where "max_errors = 3"

definition activation_start :: activation_state where
  "activation_start = \<lparr>slot = None, last_epoch = None, errors_count = 0, shutdown_called = False\<rparr>"

fun activate_loop :: "activation_state \<Rightarrow> activation_reads list \<Rightarrow> (bool \<times> activation_state) option" where
  "activate_loop st [] = None"
| "activate_loop st (rd # rds) =
     (if read_stop rd then Some (False, st)
      else if slot st = None \<and> read_slot rd = SlotNone then activate_loop st rds
      else
        let st1 = (if slot st = None
                   then (case read_slot rd of SlotInt i \<Rightarrow> st\<lparr>slot := Some i\<rparr> | _ \<Rightarrow> st)
                   else st);
            current_epoch = read_epoch rd
        in if Some current_epoch \<noteq> last_epoch st1 then
             (case read_subnet_info rd of
                None \<Rightarrow>
                  if errors_count st1 > max_errors
                  then Some (False, st1\<lparr>shutdown_called := True\<rparr>)
                  else activate_loop
                         (st1\<lparr>errors_count := errors_count st1 + 1, last_epoch := Some current_epoch\<rparr>) rds
              | Some state \<Rightarrow>
                  if state = ''Active'' then Some (True, st1)
                  else activate_loop (st1\<lparr>last_epoch := Some current_epoch\<rparr>) rds)
           else activate_loop st1 rds)"

definition run_activate_subnet ::
  "bool \<Rightarrow> activation_reads list \<Rightarrow> (bool \<times> activation_state) option" where
  "run_activate_subnet skip_activate_subnet rds =
     (if skip_activate_subnet then Some (True, activation_start)
      else activate_loop activation_start rds)"

text \<open>Concrete reads: the subnet info is missing, or the subnet is reported with a state.\<close>

definition missing_read :: "int \<Rightarrow> activation_reads" where
  "missing_read e = \<lparr>read_stop = False, read_slot = SlotInt 3, read_epoch = e, read_subnet_info = None\<rparr>"

definition state_read :: "int \<Rightarrow> string \<Rightarrow> activation_reads" where
  "state_read e st =
     \<lparr>read_stop = False, read_slot = SlotInt 3, read_epoch = e, read_subnet_info = Some st\<rparr>"

section \<open>mesh/utils/authorizers/auth.py: validating a request\<close>

text \<open>
  Modelled from the spec: \<open>TimedStorage\<close> (mesh/utils/timed\_storage.py is not among the
  sources). The spec calls the recent-nonce store a timed set whose size is bounded by TTL
  eviction and which is accessed under a freeze window during validation. The storage
  maps a key to its expiration time. An access outside a freeze window first evicts every
  entry whose expiration time has passed; inside a freeze window nothing is evicted, so an
  expired entry that no access has evicted yet is still a member.
\<close>

type_synonym timed_storage = "string \<rightharpoonup> rat"

definition remove_outdated :: "timed_storage \<Rightarrow> bool \<Rightarrow> rat \<Rightarrow> timed_storage" where
  "remove_outdated ts frozen now =
     (if frozen then ts
      else (\<lambda>k. case ts k of None \<Rightarrow> None | Some e \<Rightarrow> if e < now then None else Some e))"

definition ts_contains :: "timed_storage \<Rightarrow> bool \<Rightarrow> rat \<Rightarrow> string \<Rightarrow> bool \<times> timed_storage" where
  \<comment> \<open>\<open>key in storage\<close>: the answer and the storage after the eviction\<close>
  "ts_contains ts frozen now k =
     (let ts1 = remove_outdated ts frozen now in (ts1 k \<noteq> None, ts1))"

definition ts_store :: "timed_storage \<Rightarrow> rat \<Rightarrow> string \<Rightarrow> rat \<Rightarrow> timed_storage" where
  \<comment> \<open>\<open>storage.store(key, None, expiration_time)\<close>, outside a freeze window\<close>
  "ts_store ts now k e = remove_outdated (ts(k \<mapsto> e)) False now"

record RequestAuthInfo =
  client_public_key :: string
  service_public_key :: string
  auth_time :: rat
  nonce :: string
  signature :: string

record AuthorizedRequest =
  body :: string
  auth :: RequestAuthInfo

definition MAX_CLIENT_SERVICER_TIME_DIFF :: rat where
  \<comment> \<open>\<open>timedelta(minutes=1).total_seconds()\<close>\<close>
  "MAX_CLIENT_SERVICER_TIME_DIFF = 60"

text \<open>
  Loading the client's public key and verifying a signature under it (mesh/utils/crypto.py)
  is the parameter \<open>verify\<close> (key bytes, message, signature); \<open>SerializeToString\<close> is the
  parameter \<open>serialize\<close>. A call reads the clock once (\<open>now\<close>). The result is the tuple
  (public key, current time, nonce, verified) and the nonce storage after the call. The
  skew test and the first membership test stand inside
  \<open>with self._recent_nonces.freeze()\<close>, the second membership test after it.
\<close>

definition do_validate_request ::
  "(string \<Rightarrow> string \<Rightarrow> string \<Rightarrow> bool) \<Rightarrow> (AuthorizedRequest \<Rightarrow> string) \<Rightarrow> string \<Rightarrow>
   timed_storage \<Rightarrow> rat \<Rightarrow> AuthorizedRequest \<Rightarrow> (string \<times> rat \<times> string \<times> bool) \<times> timed_storage" where
  "do_validate_request verify serialize local_public_key recent_nonces now request =
     (let a = auth request;
          client_key = client_public_key a;
          sig = signature a;
          unsigned = request\<lparr>auth := a\<lparr>signature := []\<rparr>\<rparr>
      in if \<not> verify client_key (serialize unsigned) sig
         then ((client_key, 0, nonce a, False), recent_nonces)
         else if service_public_key a \<noteq> [] \<and> service_public_key a \<noteq> local_public_key
         then ((client_key, 0, nonce a, False), recent_nonces)
         else
           let current_time = now in
           if \<bar>auth_time a - current_time\<bar> > MAX_CLIENT_SERVICER_TIME_DIFF
           then ((client_key, current_time, nonce a, False), recent_nonces)
           else
             (case ts_contains recent_nonces True now (nonce a) of
                (seen_frozen, ts1) \<Rightarrow>
                  if seen_frozen then ((client_key, current_time, nonce a, False), ts1)
                  else
                    (case ts_contains ts1 False now (nonce a) of
                       (seen, ts2) \<Rightarrow>
                         if seen then ((client_key, current_time, nonce a, False), ts2)
                         else ((client_key, current_time, nonce a, True), ts2))))"

definition validate_request ::
  "(string \<Rightarrow> string \<Rightarrow> string \<Rightarrow> bool) \<Rightarrow> (AuthorizedRequest \<Rightarrow> string) \<Rightarrow> string \<Rightarrow>
   timed_storage \<Rightarrow> rat \<Rightarrow> AuthorizedRequest \<Rightarrow> bool \<times> timed_storage" where
  "validate_request verify serialize local_public_key recent_nonces now request =
     (case do_validate_request verify serialize local_public_key recent_nonces now request of
        ((client_key, current_time, n, valid), ts) \<Rightarrow>
          if \<not> valid then (False, ts)
          else (True, ts_store ts now n (current_time + MAX_CLIENT_SERVICER_TIME_DIFF * 3)))"

text \<open>Further requests validated by the same authorizer, each at its own clock reading.\<close>

fun validate_all ::
  "(string \<Rightarrow> string \<Rightarrow> string \<Rightarrow> bool) \<Rightarrow> (AuthorizedRequest \<Rightarrow> string) \<Rightarrow> string \<Rightarrow>
   timed_storage \<Rightarrow> (rat \<times> AuthorizedRequest) list \<Rightarrow> timed_storage" where
  "validate_all verify serialize local_public_key recent_nonces [] = recent_nonces"
| "validate_all verify serialize local_public_key recent_nonces ((now, request) # rest) =
     validate_all verify serialize local_public_key
       (snd (validate_request verify serialize local_public_key recent_nonces now request)) rest"

definition not_after :: "rat \<Rightarrow> rat \<times> AuthorizedRequest \<Rightarrow> bool" where
  "not_after t c = (fst c \<le> t)"

text \<open>
  Concrete inputs: a stand-in signature scheme in which the signature of a message under a
  key is the key followed by the message, a serialisation that writes the body, the nonce
  and the signature, and a correctly signed request with a given nonce and time stamp.
\<close>

definition toy_verify :: "string \<Rightarrow> string \<Rightarrow> string \<Rightarrow> bool" where
  "toy_verify pk msg sig = (sig = pk @ msg)"

definition toy_serialize :: "AuthorizedRequest \<Rightarrow> string" where
  "toy_serialize rq = body rq @ ''|'' @ nonce (auth rq) @ ''|'' @ signature (auth rq)"

definition ping_with :: "string \<Rightarrow> rat \<Rightarrow> AuthorizedRequest" where
  "ping_with n t = \<lparr>body = ''ping'',
               auth = \<lparr>client_public_key = ''KA'', service_public_key = ''KB'', auth_time = t,
                       nonce = n, signature = ''KAping|'' @ n @ ''|''\<rparr>\<rparr>"

text \<open>A request is well signed: its signature verifies under the key of its token, and it names no service key or this service's.\<close>

definition well_signed ::
  "(string \<Rightarrow> string \<Rightarrow> string \<Rightarrow> bool) \<Rightarrow> (AuthorizedRequest \<Rightarrow> string) \<Rightarrow> string \<Rightarrow>
   AuthorizedRequest \<Rightarrow> bool" where
  "well_signed verify serialize lpk rq =
     (verify (client_public_key (auth rq)) (serialize (rq\<lparr>auth := (auth rq)\<lparr>signature := []\<rparr>\<rparr>))
            (signature (auth rq))
      \<and> (service_public_key (auth rq) = [] \<or> service_public_key (auth rq) = lpk))"

section \<open>mesh/subnet/consensus/task.py: scoring the verifiers\<close>

text \<open>
  The scores are Python floats (IEEE doubles). Their arithmetic is not redone here: the
  type of floats is a parameter \<open>'f\<close> and the operations the code uses are the fields of a
  \<open>float_ops\<close>. An operation that can raise returns a \<open>py_error\<close>: \<open>/\<close> raises on a zero
  divisor, \<open>** 2\<close> on overflow, \<open>int()\<close> on NaN and infinities. \<open>f_gt\<close> is \<open>></\<close>, from which
  \<open>max\<close> is computed as Python does. \<open>f_to_rat\<close> is the exact value of a finite float and
  \<open>f_of_rat\<close> the float nearest to a rational.
\<close>

record 'f float_ops =
  f_zero :: 'f
  f_one :: 'f
  f_epsilon :: 'f
  f_e18 :: 'f
  f_add :: "'f \<Rightarrow> 'f \<Rightarrow> 'f"
  f_sub :: "'f \<Rightarrow> 'f \<Rightarrow> 'f"
  f_mul :: "'f \<Rightarrow> 'f \<Rightarrow> 'f"
  f_div :: "'f \<Rightarrow> 'f \<Rightarrow> py_error + 'f"
  f_square :: "'f \<Rightarrow> py_error + 'f"
  f_gt :: "'f \<Rightarrow> 'f \<Rightarrow> bool"
  f_int :: "'f \<Rightarrow> py_error + int"
  f_finite :: "'f \<Rightarrow> bool"
  f_to_rat :: "'f \<Rightarrow> rat"
  f_of_rat :: "rat \<Rightarrow> 'f"
  f_mean_special :: "'f list \<Rightarrow> py_error + 'f"

definition max2 :: "'f float_ops \<Rightarrow> 'f \<Rightarrow> 'f \<Rightarrow> 'f" where
  \<comment> \<open>\<open>max(a, b)\<close>: the first argument unless the second is greater\<close>
  "max2 ops a b = (if f_gt ops b a then b else a)"

definition max_default :: "'f float_ops \<Rightarrow> 'f list \<Rightarrow> 'f \<Rightarrow> 'f" where
  \<comment> \<open>\<open>max(values, default=d)\<close>\<close>
  "max_default ops xs d = (case xs of [] \<Rightarrow> d | y # ys \<Rightarrow> fold (\<lambda>x m. max2 ops m x) ys y)"

text \<open>
  \<open>statistics.mean\<close>: raises on no data; on finite floats it is the exact mean of the exact
  values, rounded once; with a NaN or an infinity among the data it is left to the parameter.
\<close>

definition statistics_mean :: "'f float_ops \<Rightarrow> 'f list \<Rightarrow> py_error + 'f" where
  "statistics_mean ops xs =
     (if xs = [] then Inl StatisticsError
      else if list_all (f_finite ops) xs
      then Inr (f_of_rat ops (sum_list (map (f_to_rat ops) xs) / of_nat (length xs)))
      else f_mean_special ops xs)"

text \<open>A comprehension whose element expression may raise: the first exception ends it.\<close>

fun map_err :: "('a \<Rightarrow> py_error + 'b) \<Rightarrow> 'a list \<Rightarrow> py_error + 'b list" where
  "map_err g [] = Inr []"
| "map_err g (x # xs) =
     (case g x of
        Inl e \<Rightarrow> Inl e
      | Inr y \<Rightarrow> (case map_err g xs of Inl e \<Rightarrow> Inl e | Inr ys \<Rightarrow> Inr (y # ys)))"

text \<open>
  A Python \<open>dict\<close> whose order of insertion matters is an association list with distinct
  keys: a write to a present key replaces its value in place, a write to a new key is
  added at the end (\<open>AList.update\<close>); a read is \<open>map_of\<close>.
\<close>

record 'f MathData =
  md_peer_id :: string
  equation :: string
  answer :: 'f
  peer_answer :: 'f
  md_score :: 'f

datatype ConsensusScores = ConsensusScores (cs_peer_id: string) (cs_score: int)

definition append_score :: "(string \<times> 'f list) list \<Rightarrow> string \<Rightarrow> 'f \<Rightarrow> (string \<times> 'f list) list" where
  \<comment> \<open>\<open>peer_scores[k].append(x)\<close> on a \<open>defaultdict(list)\<close>\<close>
  "append_score d k x =
     AList.update k ((case map_of d k of None \<Rightarrow> [] | Some xs \<Rightarrow> xs) @ [x]) d"

text \<open>Step 1: the scores each prover received, over all verified reveals.\<close>

definition peer_scores_of :: "(string \<times> 'f MathData list) list \<Rightarrow> (string \<times> 'f list) list" where
  "peer_scores_of results =
     fold (\<lambda>(validator_peer_id, round_scores) peer_scores.
             fold (\<lambda>score_obj peer_scores. append_score peer_scores (md_peer_id score_obj) (md_score score_obj))
                  round_scores peer_scores)
          results []"

text \<open>Step 2: the mean score per prover.\<close>

definition peer_means_of :: "'f float_ops \<Rightarrow> (string \<times> 'f list) list \<Rightarrow> py_error + (string \<times> 'f) list" where
  "peer_means_of ops peer_scores =
     map_err (\<lambda>(peer_id, scores).
                case statistics_mean ops scores of Inl e \<Rightarrow> Inl e | Inr m \<Rightarrow> Inr (peer_id, m))
             peer_scores"

text \<open>Step 3: the squared error per verifier.\<close>

fun error_loop ::
  "'f float_ops \<Rightarrow> (string \<times> 'f) list \<Rightarrow> 'f MathData list \<Rightarrow> 'f \<Rightarrow> py_error + 'f" where
  "error_loop ops peer_means [] error_sum = Inr error_sum"
| "error_loop ops peer_means (score_obj # rest) error_sum =
     (case map_of peer_means (md_peer_id score_obj) of
        None \<Rightarrow> error_loop ops peer_means rest error_sum
      | Some mean \<Rightarrow>
          (case f_square ops (f_sub ops (md_score score_obj) mean) of
             Inl e \<Rightarrow> Inl e
           | Inr sq \<Rightarrow> error_loop ops peer_means rest (f_add ops error_sum sq)))"

fun validator_errors_loop ::
  "'f float_ops \<Rightarrow> (string \<times> 'f) list \<Rightarrow> (string \<times> 'f MathData list) list \<Rightarrow>
   (string \<times> 'f) list \<Rightarrow> py_error + (string \<times> 'f) list" where
  "validator_errors_loop ops peer_means [] validator_errors = Inr validator_errors"
| "validator_errors_loop ops peer_means ((validator_peer_id, round_scores) # rest) validator_errors =
     (case error_loop ops peer_means round_scores (f_zero ops) of
        Inl e \<Rightarrow> Inl e
      | Inr error_sum \<Rightarrow>
          validator_errors_loop ops peer_means rest
            (AList.update validator_peer_id error_sum validator_errors))"

text \<open>Step 4: normalising the errors, and the fixed-point scores.\<close>

definition validator_scores_of :: "'f float_ops \<Rightarrow> (string \<times> 'f) list \<Rightarrow> py_error + (string \<times> 'f) list" where
  "validator_scores_of ops validator_errors =
     (let max_error = max_default ops (map snd validator_errors) (f_one ops)
      in map_err (\<lambda>(peer_id, error).
                    case f_div ops error (f_add ops max_error (f_epsilon ops)) of
                      Inl e \<Rightarrow> Inl e
                    | Inr q \<Rightarrow> Inr (peer_id, max2 ops (f_sub ops (f_one ops) q) (f_zero ops)))
                 validator_errors)"

definition fixed_point :: "'f float_ops \<Rightarrow> 'f \<Rightarrow> py_error + int" where
  \<comment> \<open>\<open>int(score * 1e18)\<close>\<close>
  "fixed_point ops x = f_int ops (f_mul ops x (f_e18 ops))"

definition score_verifiers ::
  "'f float_ops \<Rightarrow> (string \<times> 'f MathData list) list \<Rightarrow> py_error + ConsensusScores list" where
  "score_verifiers ops results =
     (let peer_scores = peer_scores_of results in
      case peer_means_of ops peer_scores of
        Inl e \<Rightarrow> Inl e
      | Inr peer_means \<Rightarrow>
          (case validator_errors_loop ops peer_means results [] of
             Inl e \<Rightarrow> Inl e
           | Inr validator_errors \<Rightarrow>
               (case validator_scores_of ops validator_errors of
                  Inl e \<Rightarrow> Inl e
                | Inr validator_scores \<Rightarrow>
                    map_err (\<lambda>(peer_id, score).
                               case fixed_point ops score of
                                 Inl e \<Rightarrow> Inl e
                               | Inr n \<Rightarrow> Inr (ConsensusScores peer_id n))
                            validator_scores)))"

text \<open>
  The same quantities in the words of the specification: the scores a prover received
  across all verifiers, their mean, a verifier's sum (from 0.0, in the order of its list)
  of the squared deviations of its scores from the provers' means, the largest error,
  the normalised score and its fixed-point integer. Each is defined when no operation in
  it raises.
\<close>

definition received_scores :: "(string \<times> 'f MathData list) list \<Rightarrow> string \<Rightarrow> 'f list" where
  "received_scores results p =
     map md_score (filter (\<lambda>d. md_peer_id d = p) (concat (map snd results)))"

definition spec_peer_mean ::
  "'f float_ops \<Rightarrow> (string \<times> 'f MathData list) list \<Rightarrow> string \<Rightarrow> py_error + 'f" where
  "spec_peer_mean ops results p = statistics_mean ops (received_scores results p)"

definition spec_squared_deviation ::
  "'f float_ops \<Rightarrow> (string \<times> 'f MathData list) list \<Rightarrow> 'f MathData \<Rightarrow> py_error + 'f" where
  "spec_squared_deviation ops results d =
     (case spec_peer_mean ops results (md_peer_id d) of
        Inl e \<Rightarrow> Inl e
      | Inr mean \<Rightarrow> f_square ops (f_sub ops (md_score d) mean))"

definition spec_validator_error ::
  "'f float_ops \<Rightarrow> (string \<times> 'f MathData list) list \<Rightarrow> 'f MathData list \<Rightarrow> py_error + 'f" where
  "spec_validator_error ops results ds =
     (case map_err (spec_squared_deviation ops results) ds of
        Inl e \<Rightarrow> Inl e
      | Inr squares \<Rightarrow> Inr (foldl (f_add ops) (f_zero ops) squares))"

definition spec_max_error ::
  "'f float_ops \<Rightarrow> (string \<times> 'f MathData list) list \<Rightarrow> py_error + 'f" where
  "spec_max_error ops results =
     (case map_err (\<lambda>(v, ds). spec_validator_error ops results ds) results of
        Inl e \<Rightarrow> Inl e
      | Inr errors \<Rightarrow> Inr (max_default ops errors (f_one ops)))"

definition spec_validator_score ::
  "'f float_ops \<Rightarrow> (string \<times> 'f MathData list) list \<Rightarrow> 'f MathData list \<Rightarrow> py_error + 'f" where
  "spec_validator_score ops results ds =
     (case spec_validator_error ops results ds of
        Inl e \<Rightarrow> Inl e
      | Inr error \<Rightarrow>
          (case spec_max_error ops results of
             Inl e \<Rightarrow> Inl e
           | Inr max_error \<Rightarrow>
               (case f_div ops error (f_add ops max_error (f_epsilon ops)) of
                  Inl e \<Rightarrow> Inl e
                | Inr q \<Rightarrow> Inr (max2 ops (f_sub ops (f_one ops) q) (f_zero ops)))))"

definition spec_consensus_score ::
  "'f float_ops \<Rightarrow> (string \<times> 'f MathData list) list \<Rightarrow> string \<times> 'f MathData list \<Rightarrow>
   py_error + ConsensusScores" where
  "spec_consensus_score ops results entry =
     (case entry of (v, ds) \<Rightarrow>
        (case spec_validator_score ops results ds of
           Inl e \<Rightarrow> Inl e
         | Inr normalised \<Rightarrow>
             (case fixed_point ops normalised of
                Inl e \<Rightarrow> Inl e
              | Inr n \<Rightarrow> Inr (ConsensusScores v n))))"

text \<open>Auxiliary notions of the proofs: the list a dictionary holds for a key, a dictionary
  without empty lists, and a dictionary of means that agrees with the means of the
  specification on the provers of a list.\<close>

definition scores_in :: "(string \<times> 'f list) list \<Rightarrow> string \<Rightarrow> 'f list" where
  "scores_in d p = (case map_of d p of None \<Rightarrow> [] | Some xs \<Rightarrow> xs)"

definition nonempty_lists :: "(string \<times> 'f list) list \<Rightarrow> bool" where
  "nonempty_lists d = list_all (\<lambda>(k, xs). xs \<noteq> []) d"

definition means_agree ::
  "'f float_ops \<Rightarrow> (string \<times> 'f MathData list) list \<Rightarrow> (string \<times> 'f) list \<Rightarrow> 'f MathData list \<Rightarrow> bool" where
  "means_agree ops results pm ds =
     list_all (\<lambda>d. case spec_peer_mean ops results (md_peer_id d) of
                      Inl e \<Rightarrow> False
                    | Inr m \<Rightarrow> map_of pm (md_peer_id d) = Some m) ds"

text \<open>
  Concrete inputs: exact arithmetic on rationals as an instance of the float operations,
  and three verifiers that each score prover \<open>P\<close> with 1.0. On this input every value that
  occurs (0, 1, the sum \<open>0 + 1e-8\<close>, the quotient 0 and \<open>10^18\<close>) is the same in double
  arithmetic.
\<close>

definition exact_ops :: "rat float_ops" where
  "exact_ops =
     \<lparr>f_zero = 0, f_one = 1, f_epsilon = 1 / 10 ^ 8, f_e18 = 10 ^ 18,
      f_add = (\<lambda>x y. x + y), f_sub = (\<lambda>x y. x - y), f_mul = (\<lambda>x y. x * y),
      f_div = (\<lambda>x y. if y = 0 then Inl ZeroDivisionError else Inr (x / y)),
      f_square = (\<lambda>x. Inr (x * x)),
      f_gt = (\<lambda>x y. x > y),
      f_int = (\<lambda>x. Inr (if 0 \<le> x then \<lfloor>x\<rfloor> else \<lceil>x\<rceil>)),
      f_finite = (\<lambda>x. True), f_to_rat = (\<lambda>x. x), f_of_rat = (\<lambda>x. x),
      f_mean_special = (\<lambda>xs. Inl ValueError)\<rparr>"

definition scored :: "string \<Rightarrow> rat \<Rightarrow> rat MathData" where
  "scored p s = \<lparr>md_peer_id = p, equation = ''3 + 4'', answer = 7,
                 peer_answer = (if s = 1 then 7 else 8), md_score = s\<rparr>"

definition three_agree :: "(string \<times> rat MathData list) list" where
  "three_agree = [(''V1'', [scored ''P'' 1]), (''V2'', [scored ''P'' 1]), (''V3'', [scored ''P'' 1])]"

text \<open>Rounding the exact value of a finite float gives the float back.\<close>

definition rounding_exact :: "'f float_ops \<Rightarrow> bool" where
  "rounding_exact ops = (\<forall>x. \<not> f_finite ops x \<or> f_of_rat ops (f_to_rat ops x) = x)"

section \<open>mesh/subnet/consensus/task.py: verifying the score reveals\<close>






text \<open>
  A value stored in the DHT: a digest (bytes), a reveal payload (the dictionary with
  \<open>salt\<close> and \<open>bytes\<close>), or anything else.
\<close>

datatype dht_value = Digest string | Payload string string | OtherValue











section \<open>Theorems: the on-chain reply\<close>

lemma is_peer_staked_cases:
  "is_peer_staked hypertensor subnet_id min_class peer_id_vector =
     (case hypertensor subnet_id peer_id_vector min_class ''result'' of
        Some (PyBool b) \<Rightarrow> Inr (PyBool b)
      | _ \<Rightarrow> Inr (PyBool False))"
  by (auto simp: is_peer_staked_def getitem_def Let_def split: option.splits pyval.splits)

text \<open>
  C10. Whatever dictionary the blockchain client replies with, \<open>is_peer_staked\<close> does not
  raise; it returns the boolean stored under \<open>"result"\<close> when that value is exactly
  \<open>True\<close> or \<open>False\<close>, and \<open>False\<close> in every other case (key missing, or a value
  that is not a boolean, such as the integer 1).
\<close>

theorem is_peer_staked_reply:
  "(\<forall>b. hypertensor subnet_id peer_id_vector min_class ''result'' = Some (PyBool b) \<longrightarrow>
            is_peer_staked hypertensor subnet_id min_class peer_id_vector = Inr (PyBool b))
   \<and> ((\<forall>b. hypertensor subnet_id peer_id_vector min_class ''result'' \<noteq> Some (PyBool b)) \<longrightarrow>
            is_peer_staked hypertensor subnet_id min_class peer_id_vector = Inr (PyBool False))
   \<and> (\<forall>e. is_peer_staked hypertensor subnet_id min_class peer_id_vector \<noteq> Inl e)
   \<and> is_staked hypertensor subnet_id min_class peer_id_vector
        = is_peer_staked hypertensor subnet_id min_class peer_id_vector"
  unfolding is_staked_def
  by (auto simp: is_peer_staked_cases split: option.splits pyval.splits)

theorem is_peer_staked_reply_witness:
  "is_peer_staked (\<lambda>s p m. [''result'' \<mapsto> PyBool True]) 1 2 [81, 109] = Inr (PyBool True)
   \<and> is_peer_staked (\<lambda>s p m. [''result'' \<mapsto> PyBool False]) 1 2 [81, 109] = Inr (PyBool False)
   \<and> is_peer_staked (\<lambda>s p m. [''result'' \<mapsto> PyInt 1]) 1 2 [81, 109] = Inr (PyBool False)
   \<and> is_peer_staked (\<lambda>s p m. [''error'' \<mapsto> PyStr ''no such peer'']) 1 2 [81, 109] = Inr (PyBool False)
   \<and> is_peer_staked (\<lambda>s p m. Map.empty) 1 2 [81, 109] = Inr (PyBool False)"
  using is_peer_staked_reply [of "\<lambda>s p m. [''result'' \<mapsto> PyBool True]" 1 "[81, 109]" 2]
        is_peer_staked_reply [of "\<lambda>s p m. [''result'' \<mapsto> PyBool False]" 1 "[81, 109]" 2]
        is_peer_staked_reply [of "\<lambda>s p m. [''result'' \<mapsto> PyInt 1]" 1 "[81, 109]" 2]
        is_peer_staked_reply [of "\<lambda>s p m. [''error'' \<mapsto> PyStr ''no such peer'']" 1 "[81, 109]" 2]
        is_peer_staked_reply [of "\<lambda>s p m. Map.empty" 1 "[81, 109]" 2]
  by auto

section \<open>Theorems: Jaccard similarity of consensus data\<close>

lemma compare_consensus_data_union:
  "set a \<union> set b \<noteq> {} \<Longrightarrow>
     compare_consensus_data a b = of_nat (card (set a \<inter> set b)) / of_nat (card (set a \<union> set b))"
  by (simp add: compare_consensus_data_def Let_def)

lemma compare_consensus_data_le_1:
  assumes "set a \<union> set b \<noteq> {}"
  shows "compare_consensus_data a b \<le> 1"
proof -
  have fin: "finite (set a \<union> set b)" by simp
  have "card (set a \<inter> set b) \<le> card (set a \<union> set b)"
    by (rule card_mono [OF fin]) blast
  moreover have "0 < card (set a \<union> set b)"
    using assms fin by (simp add: card_gt_0_iff)
  ultimately show ?thesis
    using assms by (simp add: compare_consensus_data_union del: Un_empty)
qed

text \<open>
  C5. \<open>compare_consensus_data x x = 1.0\<close> for every list \<open>x\<close> other than the empty one,
  which is the documented degenerate case: \<open>compare_consensus_data [] [] = 100.0\<close>; and for
  every pair of lists whose element-set union is non-empty the result is
  \<open>|intersection| / |union|\<close> of the element sets, at most 1.0.
\<close>

theorem compare_consensus_data_jaccard:
  "(x \<noteq> [] \<longrightarrow> compare_consensus_data x x = 1)
   \<and> compare_consensus_data [] [] = 100
   \<and> (set a \<union> set b \<noteq> {} \<longrightarrow>
        compare_consensus_data a b = of_nat (card (set a \<inter> set b)) / of_nat (card (set a \<union> set b))
        \<and> compare_consensus_data a b \<le> 1)"
proof (intro conjI impI)
  assume "x \<noteq> []"
  then have "set x \<noteq> {}" by simp
  moreover then have "card (set x) \<noteq> 0" by simp
  ultimately show "compare_consensus_data x x = 1"
    by (simp add: compare_consensus_data_def Let_def)
next
  show "compare_consensus_data [] [] = 100"
    by (simp add: compare_consensus_data_def)
next
  assume "set a \<union> set b \<noteq> {}"
  then show "compare_consensus_data a b
      = of_nat (card (set a \<inter> set b)) / of_nat (card (set a \<union> set b))"
    by (rule compare_consensus_data_union)
next
  assume "set a \<union> set b \<noteq> {}"
  then show "compare_consensus_data a b \<le> 1"
    by (rule compare_consensus_data_le_1)
qed

theorem compare_consensus_data_jaccard_witness:
  "compare_consensus_data
      [SubnetNodeConsensusData 1 (10 ^ 18), SubnetNodeConsensusData 6 (10 ^ 18)]
      [SubnetNodeConsensusData 1 (10 ^ 18), SubnetNodeConsensusData 6 (10 ^ 18)] = 1
   \<and> compare_consensus_data [SubnetNodeConsensusData 1 (10 ^ 18)]
      [SubnetNodeConsensusData 1 (10 ^ 18), SubnetNodeConsensusData 6 (10 ^ 18)] = 1 / 2
   \<and> compare_consensus_data [SubnetNodeConsensusData 1 (10 ^ 18)]
      [SubnetNodeConsensusData 1 (10 ^ 18), SubnetNodeConsensusData 6 (10 ^ 18)] \<le> 1"
proof -
  let ?n1 = "SubnetNodeConsensusData 1 (10 ^ 18)"
  let ?n6 = "SubnetNodeConsensusData 6 (10 ^ 18)"
  have i: "set [?n1] \<inter> set [?n1, ?n6] = {?n1}" by auto
  have u: "set [?n1] \<union> set [?n1, ?n6] = {?n1, ?n6}" by auto
  have c: "card {?n1, ?n6} = 2" by simp
  show ?thesis
    using compare_consensus_data_jaccard [of "[?n1, ?n6]" "[?n1]" "[?n1, ?n6]"]
    unfolding i u c by simp
qed

section \<open>Theorems: the commit-reveal predicate validator\<close>

lemma has_exceeded_iff:
  "has_exceeded_store_limit tr pid kt E \<longleftrightarrow> store_limit kt \<le> tr E kt pid"
  by (simp add: has_exceeded_store_limit_def store_limit_def Let_def)

lemma cleanup_keep:
  "E' \<le> E + 5 \<Longrightarrow> cleanup_old_epochs tr E' E = tr E"
  by (simp add: cleanup_old_epochs_def MAX_EPOCH_HISTORY_def)

lemma predicate_call_step:
  assumes "epoch_at_most (E + 5) (env, r, ty)"
    and "predicate_call extract_peer_id dhtid tr env r ty = (ok, tr1)"
  shows "tr1 E kt pid = tr E kt pid + (if ok \<and> is_store_of extract_peer_id dhtid (env, r, ty) E kt pid then 1 else 0)"
    and "tr1 E kt pid \<le> max (tr E kt pid) (store_limit kt)"
  using assms
  by (cases ty; auto simp: predicate_call_def call_body_def Let_def is_store_of_def epoch_at_most_def
      cleanup_keep has_exceeded_iff record_peer_store_def
      split: sum.splits option.splits if_splits)+

lemma accepted_stores_tracker:
  assumes "list_all (epoch_at_most (E + 5)) cs"
  shows "tr E kt pid + accepted_stores extract_peer_id dhtid tr cs E kt pid
           = snd (run_calls extract_peer_id dhtid tr cs) E kt pid
       \<and> snd (run_calls extract_peer_id dhtid tr cs) E kt pid \<le> max (tr E kt pid) (store_limit kt)"
  using assms
proof (induction cs arbitrary: tr)
  case Nil
  then show ?case by simp
next
  case (Cons c cs)
  obtain env r ty where c: "c = (env, r, ty)" by (cases c) auto
  obtain ok tr1 where pc: "predicate_call extract_peer_id dhtid tr env r ty = (ok, tr1)"
    by (cases "predicate_call extract_peer_id dhtid tr env r ty") auto
  from Cons.prems c have e: "epoch_at_most (E + 5) (env, r, ty)"
    and rest: "list_all (epoch_at_most (E + 5)) cs" by simp_all
  note step = predicate_call_step [OF e pc, where kt = kt and pid = pid]
  note ih = Cons.IH [OF rest, where tr = tr1]
  show ?case
    using step ih by (auto simp: c pc split: prod.splits)
qed

lemma predicate_call_GET:
  "predicate_call extract_peer_id dhtid tr env r GET =
     ((\<exists>pid. extract_peer_id (subkey r) = Inr (Some pid)), tr)"
  by (auto simp: predicate_call_def call_body_def split: sum.splits option.splits)

lemma predicate_call_POST_fst:
  "fst (predicate_call extract_peer_id dhtid tr env r POST) \<longleftrightarrow>
     (\<exists>pid ed kt. extract_peer_id (subkey r) = Inr (Some pid) \<and> subnet_epoch_data env = Inr ed
        \<and> get_key_type dhtid r (epoch ed) = Some kt
        \<and> \<not> has_exceeded_store_limit (cleanup_old_epochs tr (epoch ed)) pid kt (epoch ed)
        \<and> deadlines_and_expirations kt (percent_complete ed) (expiration_time r) (dht_time env))"
  by (auto simp: predicate_call_def call_body_def Let_def split: sum.splits option.splits)

lemma get_key_type_distinct:
  assumes "distinct (map fst (valid_keys dhtid E))"
  shows "get_key_type dhtid r E = Some kt \<longleftrightarrow> (key r, kt) \<in> set (valid_keys dhtid E)"
proof -
  have "distinct (map fst (rev (valid_keys dhtid E)))"
    using assms by (simp add: rev_map [symmetric])
  then show ?thesis
    unfolding get_key_type_def by (simp add: map_of_eq_Some_iff)
qed

lemma get_key_type_None:
  "key r \<notin> fst ` set (valid_keys dhtid E) \<Longrightarrow> get_key_type dhtid r E = None"
  unfolding get_key_type_def by (simp add: map_of_eq_None_iff)

lemma store_limit_values:
  "store_limit ''node'' = 100" "store_limit ''verifier_commit'' = 1"
  "store_limit ''verifier_reveal'' = 1" "store_limit ''scores_reveal'' = 1"
  "store_limit ''scores_commit'' = 1"
  by (simp_all add: store_limit_def per_peer_epoch_limits_def)

lemma valid_store_step:
  assumes "extract_peer_id (subkey r) = Inr (Some pid)" "subnet_epoch_data env = Inr ed"
    "get_key_type dhtid r (epoch ed) = Some kt"
    "deadlines_and_expirations kt (percent_complete ed) (expiration_time r) (dht_time env)"
  shows "fst (predicate_call extract_peer_id dhtid tr env r POST) = (tr (epoch ed) kt pid < store_limit kt)"
    and "snd (predicate_call extract_peer_id dhtid tr env r POST) (epoch ed) kt pid
          = tr (epoch ed) kt pid + (if tr (epoch ed) kt pid < store_limit kt then 1 else 0)"
  using assms
  by (auto simp: predicate_call_def call_body_def Let_def has_exceeded_iff cleanup_keep
      record_peer_store_def)

lemma repeated_store:
  assumes "extract_peer_id (subkey r) = Inr (Some pid)" "subnet_epoch_data env = Inr ed"
    "get_key_type dhtid r (epoch ed) = Some kt"
    "deadlines_and_expirations kt (percent_complete ed) (expiration_time r) (dht_time env)"
  shows "fst (run_calls extract_peer_id dhtid tr (replicate n (env, r, POST)))
           = map (\<lambda>i. tr (epoch ed) kt pid + i < store_limit kt) [0..<n]"
proof (induction n arbitrary: tr)
  case 0
  then show ?case by simp
next
  case (Suc n)
  obtain ok tr1 where pc: "predicate_call extract_peer_id dhtid tr env r POST = (ok, tr1)"
    by (cases "predicate_call extract_peer_id dhtid tr env r POST") auto
  have ok: "ok = (tr (epoch ed) kt pid < store_limit kt)"
    using valid_store_step(1) [of extract_peer_id r pid env ed dhtid kt tr] assms pc by simp
  have tr1: "tr1 (epoch ed) kt pid
      = tr (epoch ed) kt pid + (if tr (epoch ed) kt pid < store_limit kt then 1 else 0)"
    using valid_store_step(2) [of extract_peer_id r pid env ed dhtid kt tr] assms pc by simp
  have "map (\<lambda>i. tr1 (epoch ed) kt pid + i < store_limit kt) [0..<n]
      = map (\<lambda>i. tr (epoch ed) kt pid + Suc i < store_limit kt) [0..<n]"
    using tr1 by auto
  then have rest: "fst (run_calls extract_peer_id dhtid tr1 (replicate n (env, r, POST)))
      = map (\<lambda>i. tr (epoch ed) kt pid + Suc i < store_limit kt) [0..<n]"
    using Suc.IH [of tr1] by simp
  have upt: "[0..<Suc n] = 0 # map Suc [0..<n]"
    by (simp add: upt_rec [of 0 "Suc n"] map_Suc_upt del: upt_Suc)
  have "fst (run_calls extract_peer_id dhtid tr (replicate (Suc n) (env, r, POST)))
      = ok # fst (run_calls extract_peer_id dhtid tr1 (replicate n (env, r, POST)))"
    by (simp add: pc split: prod.splits)
  then show ?case
    unfolding upt rest ok by (simp add: comp_def)
qed

lemma get_key_type_of_family:
  assumes "distinct (map fst (valid_keys dhtid E))"
  shows "key r = dhtid ''node'' \<Longrightarrow> get_key_type dhtid r E = Some ''node''"
    and "key r = dhtid (get_scores_reveal_key E) \<Longrightarrow> get_key_type dhtid r E = Some ''scores_reveal''"
    and "key r = dhtid (get_verifier_commit_key E) \<Longrightarrow> get_key_type dhtid r E = Some ''verifier_commit''"
    and "key r = dhtid (get_verifier_reveal_key E) \<Longrightarrow> get_key_type dhtid r E = Some ''verifier_reveal''"
    and "key r = dhtid (get_scores_commit_key E) \<Longrightarrow> get_key_type dhtid r E = Some ''scores_commit''"
  unfolding get_key_type_distinct [OF assms]
  by (simp_all add: valid_keys_def get_scores_reveal_key_def get_verifier_commit_key_def
      get_verifier_reveal_key_def get_scores_commit_key_def)

lemma deadlines_windows:
  "deadlines_and_expirations ''verifier_commit'' p x t \<Longrightarrow> p \<le> 1 / 2"
  "deadlines_and_expirations ''verifier_reveal'' p x t \<Longrightarrow> 1 / 2 < p \<and> p \<le> 3 / 5"
  "deadlines_and_expirations ''scores_reveal'' p x t \<Longrightarrow> 1 / 2 < p \<and> p \<le> 3 / 5"
  "deadlines_and_expirations ''scores_commit'' p x t \<Longrightarrow> 3 / 5 < p"
  by (auto simp: deadlines_and_expirations_def VERIFIER_COMMIT_DEADLINE_def
      VERIFIER_REVEAL_DEADLINE_def SCORES_REVEAL_DEADLINE_def split: if_splits)

lemma accepted_key_type:
  assumes "fst (predicate_call extract_peer_id dhtid tr env r POST)"
    and "subnet_epoch_data env = Inr ed"
  obtains kt where "get_key_type dhtid r (epoch ed) = Some kt"
    and "deadlines_and_expirations kt (percent_complete ed) (expiration_time r) (dht_time env)"
  using assms unfolding predicate_call_POST_fst by auto

text \<open>
  C2. A POST at subnet epoch \<open>E\<close> and epoch progress \<open>p\<close>, from a caller whose peer id is
  extracted, with the five hashed key ids of the epoch pairwise distinct:
  a store to \<open>verifier_commit_epoch_E\<close> is accepted only when \<open>p \<le> 0.5\<close>; to
  \<open>verifier_reveal_epoch_E\<close> and \<open>scores_reveal_epoch_E\<close> only when \<open>0.5 < p \<le> 0.6\<close>; to
  \<open>scores_commit_epoch_E\<close> only when \<open>p > 0.6\<close>; a key outside the whitelist is rejected;
  a POST of a peer that has reached its limit is rejected; over any sequence of calls that
  never moves the clock past epoch \<open>E + 5\<close>, the accepted stores of a peer for a key type at
  epoch \<open>E\<close> never exceed the limit; the limit is reached exactly (repeating an admissible
  store, the first \<open>limit\<close> are accepted and the next is rejected); and the limits are 100
  for \<open>node\<close> and 1 for each of the four other families.
\<close>

theorem commit_reveal_phase_gating:
  assumes keys: "distinct (map fst (valid_keys dhtid E))"
    and peer: "extract_peer_id (subkey r) = Inr (Some pid)"
    and ed: "subnet_epoch_data env = Inr ed" "epoch ed = E"
  shows
    "(key r = dhtid (get_verifier_commit_key E)
        \<and> fst (predicate_call extract_peer_id dhtid tr env r POST)
      \<longrightarrow> percent_complete ed \<le> 1 / 2)
   \<and> ((key r = dhtid (get_verifier_reveal_key E) \<or> key r = dhtid (get_scores_reveal_key E))
        \<and> fst (predicate_call extract_peer_id dhtid tr env r POST)
      \<longrightarrow> 1 / 2 < percent_complete ed \<and> percent_complete ed \<le> 3 / 5)
   \<and> (key r = dhtid (get_scores_commit_key E)
        \<and> fst (predicate_call extract_peer_id dhtid tr env r POST)
      \<longrightarrow> 3 / 5 < percent_complete ed)
   \<and> (key r \<notin> {dhtid ''node'', dhtid (get_verifier_commit_key E), dhtid (get_verifier_reveal_key E),
                 dhtid (get_scores_reveal_key E), dhtid (get_scores_commit_key E)}
      \<longrightarrow> \<not> fst (predicate_call extract_peer_id dhtid tr env r POST))
   \<and> (\<forall>kt. get_key_type dhtid r E = Some kt \<and> store_limit kt \<le> tr E kt pid
      \<longrightarrow> \<not> fst (predicate_call extract_peer_id dhtid tr env r POST))
   \<and> (\<forall>cs kt q. list_all (epoch_at_most (E + 5)) cs
      \<longrightarrow> accepted_stores extract_peer_id dhtid empty_tracker cs E kt q \<le> store_limit kt)
   \<and> (\<forall>kt. get_key_type dhtid r E = Some kt
        \<and> deadlines_and_expirations kt (percent_complete ed) (expiration_time r) (dht_time env)
      \<longrightarrow> fst (run_calls extract_peer_id dhtid empty_tracker
                 (replicate (Suc (store_limit kt)) (env, r, POST)))
            = replicate (store_limit kt) True @ [False])
   \<and> (key r = dhtid ''node'' \<longrightarrow> get_key_type dhtid r E = Some ''node'')
   \<and> store_limit ''node'' = 100 \<and> store_limit ''verifier_commit'' = 1
   \<and> store_limit ''verifier_reveal'' = 1 \<and> store_limit ''scores_reveal'' = 1
   \<and> store_limit ''scores_commit'' = 1"
proof -
  let ?ok = "fst (predicate_call extract_peer_id dhtid tr env r POST)"
  note fam = get_key_type_of_family [OF keys, of r]
  have window: "deadlines_and_expirations kt (percent_complete ed) (expiration_time r) (dht_time env)"
    if "?ok" "get_key_type dhtid r E = Some kt" for kt
    using that ed by (auto simp: predicate_call_POST_fst)
  have c1: "percent_complete ed \<le> 1 / 2"
    if "key r = dhtid (get_verifier_commit_key E)" "?ok"
    using window [OF that(2) fam(3) [OF that(1)]] by (rule deadlines_windows)
  have c2: "1 / 2 < percent_complete ed \<and> percent_complete ed \<le> 3 / 5"
    if "key r = dhtid (get_verifier_reveal_key E) \<or> key r = dhtid (get_scores_reveal_key E)" "?ok"
    using that(1)
  proof
    assume "key r = dhtid (get_verifier_reveal_key E)"
    then show ?thesis using deadlines_windows(2) [OF window [OF that(2) fam(4)]] by blast
  next
    assume "key r = dhtid (get_scores_reveal_key E)"
    then show ?thesis using deadlines_windows(3) [OF window [OF that(2) fam(2)]] by blast
  qed
  have c3: "3 / 5 < percent_complete ed"
    if "key r = dhtid (get_scores_commit_key E)" "?ok"
    using window [OF that(2) fam(5) [OF that(1)]] by (rule deadlines_windows)
  have c4: "\<not> ?ok"
    if "key r \<notin> {dhtid ''node'', dhtid (get_verifier_commit_key E), dhtid (get_verifier_reveal_key E),
                 dhtid (get_scores_reveal_key E), dhtid (get_scores_commit_key E)}"
  proof -
    have "key r \<notin> fst ` set (valid_keys dhtid E)"
      using that by (auto simp: valid_keys_def get_scores_reveal_key_def
          get_verifier_commit_key_def get_verifier_reveal_key_def get_scores_commit_key_def)
    then have "get_key_type dhtid r E = None" by (rule get_key_type_None)
    then show ?thesis using ed by (auto simp: predicate_call_POST_fst)
  qed
  have c5: "\<not> ?ok" if "get_key_type dhtid r E = Some kt \<and> store_limit kt \<le> tr E kt pid" for kt
    using that ed peer by (auto simp: predicate_call_POST_fst has_exceeded_iff cleanup_keep)
  have c6: "accepted_stores extract_peer_id dhtid empty_tracker cs E kt q \<le> store_limit kt"
    if "list_all (epoch_at_most (E + 5)) cs" for cs kt q
    using accepted_stores_tracker [OF that, of empty_tracker kt q extract_peer_id dhtid]
    by (simp add: empty_tracker_def)
  have c7: "fst (run_calls extract_peer_id dhtid empty_tracker
                 (replicate (Suc (store_limit kt)) (env, r, POST)))
            = replicate (store_limit kt) True @ [False]"
    if "get_key_type dhtid r E = Some kt
        \<and> deadlines_and_expirations kt (percent_complete ed) (expiration_time r) (dht_time env)" for kt
  proof -
    have "fst (run_calls extract_peer_id dhtid empty_tracker
                 (replicate (Suc (store_limit kt)) (env, r, POST)))
        = map (\<lambda>i. i < store_limit kt) [0..<Suc (store_limit kt)]"
      using repeated_store [of extract_peer_id r pid env ed dhtid kt empty_tracker "Suc (store_limit kt)"]
        peer ed that by (simp add: empty_tracker_def)
    also have "\<dots> = replicate (store_limit kt) True @ [False]"
      by (simp add: map_replicate_trivial [symmetric] map_upt_eqI)
    finally show ?thesis .
  qed
  show ?thesis
    using c1 c2 c3 c4 c5 c6 c7 fam(1) store_limit_values by blast
qed

theorem commit_reveal_phase_gating_witness:
  "distinct (map fst (valid_keys id 7))
   \<and> fst (predicate_call subkey_as_peer_id id empty_tracker (env_at 7 (2 / 5)) rec_commit POST)
   \<and> \<not> fst (predicate_call subkey_as_peer_id id empty_tracker (env_at 7 (11 / 20)) rec_commit POST)
   \<and> fst (run_calls subkey_as_peer_id id empty_tracker
             (replicate 2 (env_at 7 (2 / 5), rec_commit, POST))) = [True, False]"
proof -
  have k: "distinct (map fst (valid_keys id 7))"
    by (simp add: valid_keys_def str_of_int_def str_of_nat.simps digit_char_def)
  have p: "subkey_as_peer_id (subkey rec_commit) = Inr (Some ''QmPeerA'')"
    by (simp add: subkey_as_peer_id_def rec_commit_def)
  have kr: "key rec_commit = id (get_verifier_commit_key 7)"
    by (simp add: rec_commit_def get_verifier_commit_key_def str_of_int_def str_of_nat.simps digit_char_def)
  have kt: "get_key_type id rec_commit 7 = Some ''verifier_commit''"
    using get_key_type_of_family(3) [OF k kr] .
  have d: "deadlines_and_expirations ''verifier_commit'' (2 / 5) (expiration_time rec_commit) 500"
    by (simp add: deadlines_and_expirations_def rec_commit_def VERIFIER_COMMIT_DEADLINE_def
        MAX_COMMIT_TIME_def BLOCK_SECS_def EPOCH_LENGTH_def)
  have early: "fst (predicate_call subkey_as_peer_id id empty_tracker (env_at 7 (2 / 5)) rec_commit POST)"
    using p kt d
    by (simp add: predicate_call_POST_fst env_at_def has_exceeded_iff store_limit_values
        cleanup_old_epochs_def empty_tracker_def)
  note late = commit_reveal_phase_gating
      [of id 7 subkey_as_peer_id rec_commit "''QmPeerA''" "env_at 7 (11 / 20)"
          "\<lparr>epoch = 7, percent_complete = 11 / 20\<rparr>" empty_tracker, OF k p]
  note cap = commit_reveal_phase_gating
      [of id 7 subkey_as_peer_id rec_commit "''QmPeerA''" "env_at 7 (2 / 5)"
          "\<lparr>epoch = 7, percent_complete = 2 / 5\<rparr>" empty_tracker, OF k p]
  have l: "\<not> fst (predicate_call subkey_as_peer_id id empty_tracker (env_at 7 (11 / 20)) rec_commit POST)"
    using late kr by (auto simp: env_at_def)
  have c: "fst (run_calls subkey_as_peer_id id empty_tracker
             (replicate 2 (env_at 7 (2 / 5), rec_commit, POST))) = [True, False]"
    using cap kt d by (simp add: env_at_def store_limit_values numeral_2_eq_2)
  show ?thesis using k early l c by simp
qed

text \<open>
  C9, as stated, at a record without a subkey: no caller peer id is extracted, and the
  GET is answered with \<open>False\<close>.
\<close>

theorem get_without_peer_id_counterexample:
  "\<not> fst (predicate_call subkey_as_peer_id id empty_tracker (env_at 7 (2 / 5)) rec_no_subkey GET)"
  by (simp add: predicate_call_def call_body_def subkey_as_peer_id_def rec_no_subkey_def)

text \<open>
  C9 (amended). For every DHT record from whose subkey a caller peer id is extracted, a GET
  is answered with \<open>True\<close> and leaves the counters unchanged, whatever the record's key, the
  epoch, the epoch progress, the clock and the per-peer counters are; a record from whose
  subkey no peer id is extracted (the helper returns \<open>None\<close> or raises) is rejected, GET
  included.
\<close>

theorem get_always_allowed:
  "(extract_peer_id (subkey r) = Inr (Some pid) \<longrightarrow>
      predicate_call extract_peer_id dhtid tr env r GET = (True, tr))
   \<and> ((\<forall>pid. extract_peer_id (subkey r) \<noteq> Inr (Some pid)) \<longrightarrow>
      predicate_call extract_peer_id dhtid tr env r GET = (False, tr))"
  by (auto simp: predicate_call_GET)

theorem get_always_allowed_witness:
  "predicate_call subkey_as_peer_id id (record_peer_store empty_tracker ''QmPeerA'' ''verifier_commit'' 7)
      (env_at 7 (99 / 100)) rec_commit GET
    = (True, record_peer_store empty_tracker ''QmPeerA'' ''verifier_commit'' 7)
   \<and> predicate_call subkey_as_peer_id id empty_tracker (env_at 7 (2 / 5)) rec_no_subkey GET
    = (False, empty_tracker)"
  using get_always_allowed [of subkey_as_peer_id rec_commit "''QmPeerA''" id
          "record_peer_store empty_tracker ''QmPeerA'' ''verifier_commit'' 7" "env_at 7 (99 / 100)"]
        get_always_allowed [of subkey_as_peer_id rec_no_subkey "''QmPeerA''" id
          empty_tracker "env_at 7 (2 / 5)"]
  by (simp add: subkey_as_peer_id_def rec_commit_def rec_no_subkey_def)

section \<open>Theorems: the proof-of-stake caches\<close>

lemma is_staked_total:
  "\<exists>b. is_staked h sid mc v = Inr (PyBool b)"
  by (auto simp: is_staked_def is_peer_staked_cases split: option.splits pyval.splits)

lemma update_success_caches:
  "peer_id_to_last_successful_pos (update_peer_id_success s p t) p = Some t"
  "peer_id_to_last_failed_pos (update_peer_id_success s p t) p = None"
  "q \<noteq> p \<Longrightarrow> peer_id_to_last_successful_pos (update_peer_id_success s p t) q
      = peer_id_to_last_successful_pos s q"
  "q \<noteq> p \<Longrightarrow> peer_id_to_last_failed_pos (update_peer_id_success s p t) q
      = peer_id_to_last_failed_pos s q"
  by (simp_all add: update_peer_id_success_def)

lemma update_fail_caches:
  "peer_id_to_last_failed_pos (update_peer_id_fail s p t) p = Some t"
  "peer_id_to_last_successful_pos (update_peer_id_fail s p t) p = None"
  "q \<noteq> p \<Longrightarrow> peer_id_to_last_successful_pos (update_peer_id_fail s p t) q
      = peer_id_to_last_successful_pos s q"
  "q \<noteq> p \<Longrightarrow> peer_id_to_last_failed_pos (update_peer_id_fail s p t) q
      = peer_id_to_last_failed_pos s q"
  by (simp_all add: update_peer_id_fail_def)

lemma disjoint_update_success: "caches_disjoint s \<Longrightarrow> caches_disjoint (update_peer_id_success s p t)"
  by (auto simp: caches_disjoint_def update_peer_id_success_def)

lemma disjoint_update_fail: "caches_disjoint s \<Longrightarrow> caches_disjoint (update_peer_id_fail s p t)"
  by (auto simp: caches_disjoint_def update_peer_id_fail_def)

lemma proof_of_stake_state:
  assumes "proof_of_stake gp h sid mc s now later pk = Inr (b, s', qs)"
  shows "s' = s \<and> qs = []
       \<or> (\<exists>p. gp pk = Some p \<and> qs = [to_vec_u8 p]
            \<and> s' = (if b then update_peer_id_success s p later else update_peer_id_fail s p later))"
  using assms is_staked_total [of h sid mc]
  by (auto simp: proof_of_stake_def Let_def split: option.splits if_splits sum.splits)

lemma reachable_disjoint:
  "pos_reachable gp h sid mc s \<Longrightarrow> caches_disjoint s"
proof (induction rule: pos_reachable.induct)
  case pos_init
  then show ?case by (simp add: caches_disjoint_def init_ProofOfStake_def)
next
  case (pos_call s now later pk b s' qs)
  then show ?case
    using proof_of_stake_state [OF pos_call.hyps(2)]
    by (auto simp: disjoint_update_success disjoint_update_fail)
next
  case (pos_success s p t)
  then show ?case by (simp add: disjoint_update_success)
next
  case (pos_fail s p t)
  then show ?case by (simp add: disjoint_update_fail)
qed

lemma recent_fail_rejects:
  assumes "gp pk = Some p" "peer_id_to_last_failed_pos s p = Some t0" "t0 \<noteq> 0" "now - t0 < 300"
  shows "proof_of_stake gp h sid mc s now later pk = Inr (False, s, [])"
  using assms by (simp add: proof_of_stake_def get_peer_id_last_fail_def pos_fail_cooldown_def)

lemma recent_success_accepts:
  assumes "gp pk = Some p" "peer_id_to_last_successful_pos s p = Some t0" "t0 \<noteq> 0" "now - t0 < 300"
    and "peer_id_to_last_failed_pos s p = None"
  shows "proof_of_stake gp h sid mc s now later pk = Inr (True, s, [])"
  using assms
  by (simp add: proof_of_stake_def get_peer_id_last_fail_def get_peer_id_last_success_def
      pos_success_cooldown_def)

lemma on_chain_check_result:
  assumes "proof_of_stake gp h sid mc s now later pk = Inr (b, s', q # qs)"
  obtains p where "gp pk = Some p" "q = to_vec_u8 p" "qs = []"
    "b \<Longrightarrow> s' = update_peer_id_success s p later"
    "\<not> b \<Longrightarrow> s' = update_peer_id_fail s p later"
  using proof_of_stake_state [OF assms] by auto

lemma other_peer_frame:
  assumes "proof_of_stake gp h sid mc s now later k = Inr (b, s', qs)" "gp k \<noteq> Some p"
  shows "peer_id_to_last_successful_pos s' p = peer_id_to_last_successful_pos s p
       \<and> peer_id_to_last_failed_pos s' p = peer_id_to_last_failed_pos s p"
  using proof_of_stake_state [OF assms(1)] assms(2)
  by (auto simp: update_success_caches update_fail_caches)

lemma run_keeps_recent_fail:
  assumes "gp pk = Some p" "t0 \<noteq> 0" "list_all (other_or_within gp pk t0) cs"
    and "peer_id_to_last_failed_pos s p = Some t0"
  shows "peer_id_to_last_failed_pos (pos_run gp h sid mc s cs) p = Some t0"
  using assms(3,4)
proof (induction cs arbitrary: s)
  case Nil
  then show ?case by simp
next
  case (Cons c cs)
  obtain now later k where c: "c = (now, later, k)" by (cases c) auto
  show ?case
  proof (cases "proof_of_stake gp h sid mc s now later k")
    case (Inl e)
    then show ?thesis using Cons by (simp add: c)
  next
    case (Inr res)
    obtain b s' qs where res: "res = (b, s', qs)" by (cases res) auto
    have "peer_id_to_last_failed_pos s' p = Some t0"
    proof (cases "gp k = Some p")
      case True
      then have "now - t0 < 300"
        using Cons.prems(1) assms(1) by (simp add: c other_or_within_def)
      then have "proof_of_stake gp h sid mc s now later k = Inr (False, s, [])"
        using recent_fail_rejects [where gp = gp and pk = k, OF True Cons.prems(2) assms(2)] by simp
      then show ?thesis using Inr res Cons.prems(2) by simp
    next
      case False
      then show ?thesis
        using other_peer_frame [of gp h sid mc s now later k b s' qs p] Inr res Cons.prems(2)
        by simp
    qed
    then show ?thesis
      using Cons.IH [of s'] Cons.prems(1) Inr res by (simp add: c)
  qed
qed

lemma run_keeps_recent_success:
  assumes "gp pk = Some p" "t0 \<noteq> 0" "list_all (other_or_within gp pk t0) cs"
    and "peer_id_to_last_successful_pos s p = Some t0" "peer_id_to_last_failed_pos s p = None"
  shows "peer_id_to_last_successful_pos (pos_run gp h sid mc s cs) p = Some t0
       \<and> peer_id_to_last_failed_pos (pos_run gp h sid mc s cs) p = None"
  using assms(3,4,5)
proof (induction cs arbitrary: s)
  case Nil
  then show ?case by simp
next
  case (Cons c cs)
  obtain now later k where c: "c = (now, later, k)" by (cases c) auto
  show ?case
  proof (cases "proof_of_stake gp h sid mc s now later k")
    case (Inl e)
    then show ?thesis using Cons by (simp add: c)
  next
    case (Inr res)
    obtain b s' qs where res: "res = (b, s', qs)" by (cases res) auto
    have "peer_id_to_last_successful_pos s' p = Some t0 \<and> peer_id_to_last_failed_pos s' p = None"
    proof (cases "gp k = Some p")
      case True
      then have "now - t0 < 300"
        using Cons.prems(1) assms(1) by (simp add: c other_or_within_def)
      then have "proof_of_stake gp h sid mc s now later k = Inr (True, s, [])"
        using recent_success_accepts [where gp = gp and pk = k, OF True Cons.prems(2) assms(2) _ Cons.prems(3)] by simp
      then show ?thesis using Inr res Cons.prems(2,3) by simp
    next
      case False
      then show ?thesis
        using other_peer_frame [of gp h sid mc s now later k b s' qs p] Inr res Cons.prems(2,3)
        by simp
    qed
    then show ?thesis
      using Cons.IH [of s'] Cons.prems(1) Inr res by (simp add: c)
  qed
qed

text \<open>
  C6. Let an instance be in a reachable state, and let a call for a public key issue an
  on-chain check (one blockchain query) whose time recorded in the cache is \<open>later\<close>, a
  non-zero clock value. After any further calls that are for other peers or fall within
  300 seconds of \<open>later\<close>, a call for the same key at a time \<open>now'\<close> with
  \<open>now' - later < 300\<close> returns the result of that check (\<open>False\<close> after a failed check,
  \<open>True\<close> after a successful one), changes nothing and issues no blockchain query.
  A recorded success removes the peer from the failure cache, a recorded failure removes it
  from the success cache, and in every reachable state no peer is in both caches.
\<close>

theorem proof_of_stake_cooldown:
  assumes reach: "pos_reachable get_peer_id hypertensor subnet_id min_class s"
    and check: "proof_of_stake get_peer_id hypertensor subnet_id min_class s now later pk
                  = Inr (b, s1, q # qs)"
    and clock: "later \<noteq> 0"
    and between: "list_all (other_or_within get_peer_id pk later) cs"
    and within: "now' - later < 300"
  shows "proof_of_stake get_peer_id hypertensor subnet_id min_class
            (pos_run get_peer_id hypertensor subnet_id min_class s1 cs) now' later' pk
          = Inr (b, pos_run get_peer_id hypertensor subnet_id min_class s1 cs, [])
       \<and> peer_id_to_last_failed_pos (update_peer_id_success s p t) p = None
       \<and> peer_id_to_last_successful_pos (update_peer_id_fail s p t) p = None
       \<and> caches_disjoint s \<and> caches_disjoint s1
       \<and> caches_disjoint (pos_run get_peer_id hypertensor subnet_id min_class s1 cs)"
proof -
  let ?run = "pos_run get_peer_id hypertensor subnet_id min_class"
  let ?pos = "proof_of_stake get_peer_id hypertensor subnet_id min_class"
  obtain p' where p': "get_peer_id pk = Some p'"
    and upd: "b \<Longrightarrow> s1 = update_peer_id_success s p' later"
             "\<not> b \<Longrightarrow> s1 = update_peer_id_fail s p' later"
    using on_chain_check_result [OF check] by metis
  have r1: "pos_reachable get_peer_id hypertensor subnet_id min_class s1"
    using pos_reachable.pos_call [OF reach check] .
  have run_reach: "pos_reachable get_peer_id hypertensor subnet_id min_class (?run s0 cs)"
    if "pos_reachable get_peer_id hypertensor subnet_id min_class s0" for s0
    using that
  proof (induction cs arbitrary: s0)
    case Nil
    then show ?case by simp
  next
    case (Cons c cs)
    obtain n l k where c: "c = (n, l, k)" by (cases c) auto
    show ?case
    proof (cases "?pos s0 n l k")
      case (Inl e)
      then show ?thesis using Cons by (simp add: c)
    next
      case (Inr res)
      obtain b0 s0' qs0 where res: "res = (b0, s0', qs0)" by (cases res) auto
      have "pos_reachable get_peer_id hypertensor subnet_id min_class s0'"
        using pos_reachable.pos_call [OF Cons.prems] Inr res by blast
      then show ?thesis using Cons.IH Inr res by (simp add: c)
    qed
  qed
  have main: "?pos (?run s1 cs) now' later' pk = Inr (b, ?run s1 cs, [])"
  proof (cases b)
    case True
    have "peer_id_to_last_successful_pos s1 p' = Some later" "peer_id_to_last_failed_pos s1 p' = None"
      using upd(1) [OF True] by (simp_all add: update_success_caches)
    then have "peer_id_to_last_successful_pos (?run s1 cs) p' = Some later
        \<and> peer_id_to_last_failed_pos (?run s1 cs) p' = None"
      using run_keeps_recent_success [where gp = get_peer_id and pk = pk, OF p' clock between] by simp
    then show ?thesis
      using recent_success_accepts [where gp = get_peer_id and pk = pk, OF p' _ clock within] True by simp
  next
    case False
    have "peer_id_to_last_failed_pos s1 p' = Some later"
      using upd(2) [OF False] by (simp add: update_fail_caches)
    then have "peer_id_to_last_failed_pos (?run s1 cs) p' = Some later"
      using run_keeps_recent_fail [where gp = get_peer_id and pk = pk, OF p' clock between] by simp
    then show ?thesis
      using recent_fail_rejects [where gp = get_peer_id and pk = pk, OF p' _ clock within] False by simp
  qed
  show ?thesis
    using main reachable_disjoint [OF reach] reachable_disjoint [OF r1]
      reachable_disjoint [OF run_reach [OF r1]]
    by (simp add: update_success_caches update_fail_caches)
qed

lemma to_vec_u8_neq: "to_vec_u8 ''QmGood'' \<noteq> to_vec_u8 ''QmBad''"
  by (simp add: to_vec_u8_def)

theorem proof_of_stake_cooldown_witness:
  "proof_of_stake Some (chain_rejecting ''QmBad'') 1 2 init_ProofOfStake 1000 1001 ''QmBad''
     = Inr (False, update_peer_id_fail init_ProofOfStake ''QmBad'' 1001, [to_vec_u8 ''QmBad''])
   \<and> proof_of_stake Some (chain_rejecting ''QmBad'') 1 2
        (pos_run Some (chain_rejecting ''QmBad'') 1 2
           (update_peer_id_fail init_ProofOfStake ''QmBad'' 1001)
           [(1100, 1101, ''QmGood''), (1200, 1201, ''QmBad'')])
        1300 1302 ''QmBad''
     = Inr (False,
            pos_run Some (chain_rejecting ''QmBad'') 1 2
              (update_peer_id_fail init_ProofOfStake ''QmBad'' 1001)
              [(1100, 1101, ''QmGood''), (1200, 1201, ''QmBad'')], [])
   \<and> proof_of_stake Some (chain_rejecting ''QmBad'') 1 2 init_ProofOfStake 1000 1001 ''QmGood''
     = Inr (True, update_peer_id_success init_ProofOfStake ''QmGood'' 1001, [to_vec_u8 ''QmGood''])
   \<and> proof_of_stake Some (chain_rejecting ''QmBad'') 1 2
        (pos_run Some (chain_rejecting ''QmBad'') 1 2
           (update_peer_id_success init_ProofOfStake ''QmGood'' 1001) [])
        1300 1302 ''QmGood''
     = Inr (True,
            pos_run Some (chain_rejecting ''QmBad'') 1 2
              (update_peer_id_success init_ProofOfStake ''QmGood'' 1001) [], [])"
proof -
  let ?h = "chain_rejecting ''QmBad''"
  have bad: "proof_of_stake Some ?h 1 2 init_ProofOfStake 1000 1001 ''QmBad''
     = Inr (False, update_peer_id_fail init_ProofOfStake ''QmBad'' 1001, [to_vec_u8 ''QmBad''])"
    by (simp add: proof_of_stake_def init_ProofOfStake_def get_peer_id_last_fail_def
        get_peer_id_last_success_def is_staked_def is_peer_staked_cases chain_rejecting_def
        truthy_def)
  have good: "proof_of_stake Some ?h 1 2 init_ProofOfStake 1000 1001 ''QmGood''
     = Inr (True, update_peer_id_success init_ProofOfStake ''QmGood'' 1001, [to_vec_u8 ''QmGood''])"
    using to_vec_u8_neq
    by (simp add: proof_of_stake_def init_ProofOfStake_def get_peer_id_last_fail_def
        get_peer_id_last_success_def is_staked_def is_peer_staked_cases chain_rejecting_def
        truthy_def)
  have between: "list_all (other_or_within Some ''QmBad'' 1001)
      [(1100, 1101, ''QmGood''), (1200, 1201, ''QmBad'')]"
    by (simp add: other_or_within_def)
  have w: "(1300::rat) - 1001 < 300" and c: "(1001::rat) \<noteq> 0" by simp_all
  show ?thesis
    using bad good
      proof_of_stake_cooldown [OF pos_init bad c between w, of 1302]
      proof_of_stake_cooldown [OF pos_init good c _ w, of "[]" 1302]
    by simp
qed

section \<open>Theorems: waiting for activation\<close>

text \<open>
  C8. The code at four consecutive epochs with a missing subnet info followed by an
  epoch in which the subnet is active: the four misses are all tolerated and the function
  returns \<open>True\<close> without calling shutdown. Only a fifth miss aborts (shutdown, \<open>False\<close>);
  and the count is never reset, so five misses that are not consecutive abort as well.
\<close>

theorem run_activate_subnet_four_misses:
  "run_activate_subnet False
     [missing_read 10, missing_read 11, missing_read 12, missing_read 13, state_read 14 ''Active'']
     = Some (True, \<lparr>slot = Some 3, last_epoch = Some 13, errors_count = 4, shutdown_called = False\<rparr>)
   \<and> run_activate_subnet False
     [missing_read 10, missing_read 11, missing_read 12, missing_read 13, missing_read 14]
     = Some (False, \<lparr>slot = Some 3, last_epoch = Some 13, errors_count = 4, shutdown_called = True\<rparr>)
   \<and> run_activate_subnet False
     [missing_read 10, state_read 11 ''Registered'', missing_read 12, state_read 13 ''Registered'',
      missing_read 14, state_read 15 ''Registered'', missing_read 16, state_read 17 ''Registered'',
      missing_read 18]
     = Some (False, \<lparr>slot = Some 3, last_epoch = Some 17, errors_count = 4, shutdown_called = True\<rparr>)"
  by (simp add: run_activate_subnet_def activation_start_def missing_read_def state_read_def
      max_errors_def)

section \<open>Theorems: request validation\<close>

lemma validate_request_fst:
  "fst (validate_request verify serialize lpk S now rq) \<longleftrightarrow>
     well_signed verify serialize lpk rq
     \<and> \<bar>auth_time (auth rq) - now\<bar> \<le> 60
     \<and> S (nonce (auth rq)) = None"
  by (auto simp: validate_request_def do_validate_request_def Let_def well_signed_def
      ts_contains_def remove_outdated_def MAX_CLIENT_SERVICER_TIME_DIFF_def split: option.splits)

lemma validate_request_snd_accept:
  assumes "fst (validate_request verify serialize lpk S now rq)"
  shows "snd (validate_request verify serialize lpk S now rq) =
           (remove_outdated S False now)(nonce (auth rq) \<mapsto> now + 180)"
  using assms
  by (auto simp: validate_request_def do_validate_request_def Let_def ts_contains_def
      ts_store_def remove_outdated_def MAX_CLIENT_SERVICER_TIME_DIFF_def fun_eq_iff
      split: option.splits if_splits)

lemma validate_request_snd_reject:
  assumes "\<not> fst (validate_request verify serialize lpk S now rq)"
  shows "snd (validate_request verify serialize lpk S now rq) = S"
  using assms
  by (auto simp: validate_request_def do_validate_request_def Let_def ts_contains_def
      remove_outdated_def MAX_CLIENT_SERVICER_TIME_DIFF_def split: option.splits if_splits)

lemma validate_request_keeps:
  assumes "S n = Some e" "now \<le> e"
  shows "snd (validate_request verify serialize lpk S now rq) n = Some e"
proof (cases "fst (validate_request verify serialize lpk S now rq)")
  case True
  then have "nonce (auth rq) \<noteq> n" using assms(1) by (auto simp: validate_request_fst)
  then show ?thesis
    using assms by (simp add: validate_request_snd_accept [OF True] remove_outdated_def)
next
  case False
  then show ?thesis using assms by (simp add: validate_request_snd_reject)
qed

lemma validate_all_keeps:
  assumes "S n = Some e" "list_all (not_after e) rest"
  shows "validate_all verify serialize lpk S rest n = Some e"
  using assms
proof (induction rest arbitrary: S)
  case Nil
  then show ?case by simp
next
  case (Cons c rest)
  obtain now rq where c: "c = (now, rq)" by (cases c) auto
  have "now \<le> e" using Cons.prems(2) by (simp add: c not_after_def)
  then have "snd (validate_request verify serialize lpk S now rq) n = Some e"
    using validate_request_keeps [of S n e now verify serialize lpk rq] Cons.prems(1) by simp
  then show ?case using Cons.IH Cons.prems(2) by (simp add: c)
qed

text \<open>
  An expired nonce that no access outside a freeze window has evicted yet is still
  rejected: the first membership test runs inside the freeze window.
\<close>

lemma unevicted_nonce_rejected:
  "S (nonce (auth rq)) = Some e \<Longrightarrow> \<not> fst (validate_request verify serialize lpk S now rq)"
  by (simp add: validate_request_fst)

lemma validation_evicts:
  assumes "fst (validate_request verify serialize lpk S t' rq')" "S n = Some e" "e < t'"
  shows "snd (validate_request verify serialize lpk S t' rq') n = None"
proof -
  have "nonce (auth rq') \<noteq> n" using assms(1,2) by (auto simp: validate_request_fst)
  then show ?thesis
    using assms(2,3) by (simp add: validate_request_snd_accept [OF assms(1)] remove_outdated_def)
qed

text \<open>
  C3. \<open>validate_request\<close> returns \<open>False\<close> whenever the request's stamped time differs
  from the local clock by more than 60 seconds. When a request was validated at time \<open>t\<close>,
  its nonce is stored with expiration time \<open>t + 180\<close>, and whatever other requests are
  validated up to that time, a request with that nonce presented at a time
  \<open>now \<le> t + 3 * 60\<close> is answered with \<open>False\<close>. After the expiration time the same
  nonce may be accepted again: once a validation of another request later than the
  expiration time has evicted it, a request with the same nonce that is correctly signed,
  addressed to this service and stamped within 60 seconds of the clock is accepted.
\<close>

theorem validate_request_skew_and_replay:
  "(\<bar>auth_time (auth rq) - now\<bar> > 60 \<longrightarrow>
      \<not> fst (validate_request verify serialize lpk S now rq))
   \<and> (fst (validate_request verify serialize lpk S t rq0)
        \<and> nonce (auth rq) = nonce (auth rq0) \<and> list_all (not_after (t + 3 * 60)) rest
        \<and> now \<le> t + 3 * 60 \<longrightarrow>
      snd (validate_request verify serialize lpk S t rq0) (nonce (auth rq0)) = Some (t + 180)
      \<and> \<not> fst (validate_request verify serialize lpk
               (validate_all verify serialize lpk
                  (snd (validate_request verify serialize lpk S t rq0)) rest) now rq))
   \<and> (S (nonce (auth rq)) = Some e \<and> e < t' \<and> fst (validate_request verify serialize lpk S t' rq')
        \<and> well_signed verify serialize lpk rq \<and> \<bar>auth_time (auth rq) - now\<bar> \<le> 60 \<longrightarrow>
      fst (validate_request verify serialize lpk
             (snd (validate_request verify serialize lpk S t' rq')) now rq))"
proof (intro conjI impI)
  assume "\<bar>auth_time (auth rq) - now\<bar> > 60"
  then show "\<not> fst (validate_request verify serialize lpk S now rq)"
    by (simp add: validate_request_fst)
next
  assume a: "fst (validate_request verify serialize lpk S t rq0)
        \<and> nonce (auth rq) = nonce (auth rq0) \<and> list_all (not_after (t + 3 * 60)) rest
        \<and> now \<le> t + 3 * 60"
  then show "snd (validate_request verify serialize lpk S t rq0) (nonce (auth rq0)) = Some (t + 180)"
    by (simp add: validate_request_snd_accept)
next
  assume a: "fst (validate_request verify serialize lpk S t rq0)
        \<and> nonce (auth rq) = nonce (auth rq0) \<and> list_all (not_after (t + 3 * 60)) rest
        \<and> now \<le> t + 3 * 60"
  let ?S1 = "snd (validate_request verify serialize lpk S t rq0)"
  have "?S1 (nonce (auth rq0)) = Some (t + 180)"
    using a by (simp add: validate_request_snd_accept)
  moreover have "list_all (not_after (t + 180)) rest" using a by simp
  ultimately have "validate_all verify serialize lpk ?S1 rest (nonce (auth rq0)) = Some (t + 180)"
    by (rule validate_all_keeps)
  then show "\<not> fst (validate_request verify serialize lpk
               (validate_all verify serialize lpk ?S1 rest) now rq)"
    using a by (simp add: validate_request_fst)
next
  assume a: "S (nonce (auth rq)) = Some e \<and> e < t'
        \<and> fst (validate_request verify serialize lpk S t' rq')
        \<and> well_signed verify serialize lpk rq \<and> \<bar>auth_time (auth rq) - now\<bar> \<le> 60"
  then have "snd (validate_request verify serialize lpk S t' rq') (nonce (auth rq)) = None"
    using validation_evicts [of verify serialize lpk S t' rq' "nonce (auth rq)" e] by simp
  then show "fst (validate_request verify serialize lpk
             (snd (validate_request verify serialize lpk S t' rq')) now rq)"
    using a by (simp add: validate_request_fst)
qed

theorem validate_request_skew_and_replay_witness:
  "fst (validate_request toy_verify toy_serialize ''KB'' Map.empty 1000 (ping_with ''n1'' 1000))
   \<and> \<not> fst (validate_request toy_verify toy_serialize ''KB'' Map.empty 1100 (ping_with ''n1'' 1000))
   \<and> \<not> fst (validate_request toy_verify toy_serialize ''KB''
            (validate_all toy_verify toy_serialize ''KB''
               (snd (validate_request toy_verify toy_serialize ''KB'' Map.empty 1000
                       (ping_with ''n1'' 1000)))
               [(1005, ping_with ''n2'' 1005)]) 1010 (ping_with ''n1'' 1010))
   \<and> fst (validate_request toy_verify toy_serialize ''KB''
            (snd (validate_request toy_verify toy_serialize ''KB''
                    (snd (validate_request toy_verify toy_serialize ''KB'' Map.empty 1000
                            (ping_with ''n1'' 1000)))
                    1181 (ping_with ''n2'' 1181)))
            1190 (ping_with ''n1'' 1190))"
proof -
  let ?v = "validate_request toy_verify toy_serialize ''KB''"
  let ?S1 = "snd (?v Map.empty 1000 (ping_with ''n1'' 1000))"
  have ws: "well_signed toy_verify toy_serialize ''KB'' (ping_with n t)" for n t
    by (simp add: well_signed_def ping_with_def toy_verify_def toy_serialize_def)
  have first: "fst (?v Map.empty 1000 (ping_with ''n1'' 1000))"
    by (simp add: validate_request_fst ws) (simp add: ping_with_def)
  have S1: "?S1 = (remove_outdated Map.empty False 1000)(''n1'' \<mapsto> 1180)"
    using validate_request_snd_accept [OF first] by (simp add: ping_with_def)
  have n1: "?S1 ''n1'' = Some 1180" and n2: "?S1 ''n2'' = None"
    unfolding S1 by (simp_all add: remove_outdated_def)
  have other: "fst (?v ?S1 1181 (ping_with ''n2'' 1181))"
    using n2 by (simp add: validate_request_fst ws) (simp add: ping_with_def)
  note skew = validate_request_skew_and_replay
      [of "ping_with ''n1'' 1000" 1100 toy_verify toy_serialize "''KB''" Map.empty]
  note replay = validate_request_skew_and_replay
      [of "ping_with ''n1'' 1010" 1010 toy_verify toy_serialize "''KB''" Map.empty 1000
          "ping_with ''n1'' 1000" "[(1005, ping_with ''n2'' 1005)]"]
  note again = validate_request_skew_and_replay
      [of "ping_with ''n1'' 1190" 1190 toy_verify toy_serialize "''KB''" ?S1 _ _ _ 1180 1181
          "ping_with ''n2'' 1181"]
  have a: "\<not> fst (?v Map.empty 1100 (ping_with ''n1'' 1000))"
    using skew by (simp add: ping_with_def)
  have b: "\<not> fst (?v (validate_all toy_verify toy_serialize ''KB'' ?S1
               [(1005, ping_with ''n2'' 1005)]) 1010 (ping_with ''n1'' 1010))"
    using replay first by (simp add: ping_with_def not_after_def)
  have c: "fst (?v (snd (?v ?S1 1181 (ping_with ''n2'' 1181))) 1190 (ping_with ''n1'' 1190))"
    using again n1 other ws [of "''n1''" 1190] by (simp add: ping_with_def)
  show ?thesis using first a b c by simp
qed

section \<open>Theorems: scoring the verifiers\<close>

lemma map_err_Inr_iff:
  "map_err g xs = Inr ys \<longleftrightarrow> list_all2 (\<lambda>x y. g x = Inr y) xs ys"
proof (induction xs arbitrary: ys)
  case Nil
  then show ?case by auto
next
  case (Cons x xs)
  show ?case
    by (cases "g x"; cases "map_err g xs")
       (auto simp: list_all2_Cons1 Cons.IH [symmetric])
qed

lemma map_err_Inl:
  "map_err g xs = Inl e \<Longrightarrow> \<exists>x\<in>set xs. g x = Inl e"
  by (induction xs) (auto split: sum.splits)

lemma map_err_cong_all2:
  "list_all2 (\<lambda>x y. g x = h y) xs ys \<Longrightarrow> map_err g xs = map_err h ys"
  by (induction xs ys rule: list_all2_induct) (auto split: sum.splits)

lemma same_Inr_case:
  assumes "\<And>z. (s = Inr z) = (t = Inr z)"
  shows "((case s of Inl e \<Rightarrow> Inl e | Inr zs \<Rightarrow> Inr (f zs)) = Inr out)
       = ((case t of Inl e \<Rightarrow> Inl e | Inr zs \<Rightarrow> Inr (f zs)) = Inr out)"
proof (cases s)
  case (Inl e)
  then have "t \<noteq> Inr z" for z using assms [of z] by simp
  then obtain e' where "t = Inl e'" by (cases t) auto
  then show ?thesis using Inl by simp
next
  case (Inr zs)
  then have "t = Inr zs" using assms [of zs] by simp
  then show ?thesis using Inr by simp
qed

lemma map_err_compose:
  "(case map_err a xs of Inl e \<Rightarrow> Inl e | Inr ys \<Rightarrow> map_err b ys) = Inr out
     \<longleftrightarrow> map_err (\<lambda>x. case a x of Inl e \<Rightarrow> Inl e | Inr y \<Rightarrow> b y) xs = Inr out"
proof (induction xs arbitrary: out)
  case Nil
  then show ?case by simp
next
  case (Cons x xs)
  let ?c = "\<lambda>x. case a x of Inl e \<Rightarrow> Inl e | Inr y \<Rightarrow> b y"
  show ?case
  proof (cases "a x")
    case (Inl e)
    then show ?thesis by simp
  next
    case ax: (Inr y)
    show ?thesis
    proof (cases "b y")
      case (Inl e)
      then show ?thesis using ax by (simp split: sum.splits)
    next
      case (Inr z)
      have lhs: "(case map_err a (x # xs) of Inl e \<Rightarrow> Inl e | Inr ys \<Rightarrow> map_err b ys)
          = (case (case map_err a xs of Inl e \<Rightarrow> Inl e | Inr ys \<Rightarrow> map_err b ys) of
               Inl e \<Rightarrow> Inl e | Inr zs \<Rightarrow> Inr (z # zs))"
        using ax Inr by (simp split: sum.splits)
      have rhs: "map_err ?c (x # xs)
          = (case map_err ?c xs of Inl e \<Rightarrow> Inl e | Inr zs \<Rightarrow> Inr (z # zs))"
        using ax Inr by simp
      show ?thesis
        unfolding lhs rhs by (rule same_Inr_case) (rule Cons.IH)
    qed
  qed
qed

lemma scores_in_append_score:
  "scores_in (append_score d k x) p = scores_in d p @ (if k = p then [x] else [])"
  by (simp add: scores_in_def append_score_def update_conv')

lemma scores_in_fold_inner:
  "scores_in (fold (\<lambda>score_obj peer_scores.
        append_score peer_scores (md_peer_id score_obj) (md_score score_obj)) ds acc) p
   = scores_in acc p @ map md_score (filter (\<lambda>d. md_peer_id d = p) ds)"
  by (induction ds arbitrary: acc) (simp_all add: scores_in_append_score)

lemma scores_in_fold_outer:
  "scores_in (fold (\<lambda>(validator_peer_id, round_scores) peer_scores.
             fold (\<lambda>score_obj peer_scores. append_score peer_scores (md_peer_id score_obj) (md_score score_obj))
                  round_scores peer_scores) results acc) p
   = scores_in acc p @ received_scores results p"
proof (induction results arbitrary: acc)
  case Nil
  then show ?case by (simp add: received_scores_def)
next
  case (Cons r results)
  obtain v ds where r: "r = (v, ds)" by (cases r) auto
  show ?case
    using Cons.IH by (simp add: r scores_in_fold_inner received_scores_def)
qed

lemma nonempty_update:
  "nonempty_lists d \<Longrightarrow> v \<noteq> [] \<Longrightarrow> nonempty_lists (AList.update k v d)"
  by (induction d) (auto simp: nonempty_lists_def)

lemma nonempty_append_score: "nonempty_lists d \<Longrightarrow> nonempty_lists (append_score d k x)"
  by (simp add: append_score_def nonempty_update)

lemma nonempty_fold_inner:
  "nonempty_lists acc \<Longrightarrow> nonempty_lists (fold (\<lambda>score_obj peer_scores.
        append_score peer_scores (md_peer_id score_obj) (md_score score_obj)) ds acc)"
  by (induction ds arbitrary: acc) (simp_all add: nonempty_append_score)

lemma nonempty_fold_outer:
  "nonempty_lists acc \<Longrightarrow> nonempty_lists (fold (\<lambda>(validator_peer_id, round_scores) peer_scores.
             fold (\<lambda>score_obj peer_scores. append_score peer_scores (md_peer_id score_obj) (md_score score_obj))
                  round_scores peer_scores) results acc)"
proof (induction results arbitrary: acc)
  case Nil
  then show ?case by simp
next
  case (Cons r results)
  obtain v ds where r: "r = (v, ds)" by (cases r) auto
  show ?case using Cons by (simp add: r nonempty_fold_inner)
qed

lemma nonempty_peer_scores: "nonempty_lists (peer_scores_of results)"
  unfolding peer_scores_of_def by (rule nonempty_fold_outer) (simp add: nonempty_lists_def)

lemma nonempty_map_of: "nonempty_lists d \<Longrightarrow> map_of d p = Some xs \<Longrightarrow> xs \<noteq> []"
  by (induction d) (auto simp: nonempty_lists_def split: if_splits)

lemma map_of_peer_scores:
  "map_of (peer_scores_of results) p =
     (if received_scores results p = [] then None else Some (received_scores results p))"
proof -
  have s: "scores_in (peer_scores_of results) p = received_scores results p"
    unfolding peer_scores_of_def by (simp add: scores_in_fold_outer) (simp add: scores_in_def)
  show ?thesis
  proof (cases "map_of (peer_scores_of results) p")
    case None
    then show ?thesis using s by (simp add: scores_in_def)
  next
    case (Some xs)
    then have "xs \<noteq> []" using nonempty_map_of [OF nonempty_peer_scores] by blast
    then show ?thesis using s Some by (simp add: scores_in_def)
  qed
qed

lemma received_member:
  assumes "(v, ds) \<in> set results" "d \<in> set ds"
  shows "received_scores results (md_peer_id d) \<noteq> []"
proof -
  have "d \<in> set (concat (map snd results))" using assms by force
  then have "d \<in> set (filter (\<lambda>x. md_peer_id x = md_peer_id d) (concat (map snd results)))"
    by simp
  then show ?thesis
    unfolding received_scores_def by (metis empty_iff list.set(1) map_is_Nil_conv)
qed

lemma received_nonempty_member:
  assumes "received_scores results p \<noteq> []"
  obtains v ds d where "(v, ds) \<in> set results" "d \<in> set ds" "md_peer_id d = p"
proof -
  from assms obtain d where "d \<in> set (filter (\<lambda>x. md_peer_id x = p) (concat (map snd results)))"
    unfolding received_scores_def by (metis last_in_set map_is_Nil_conv)
  then have "d \<in> set (concat (map snd results))" "md_peer_id d = p" by auto
  then obtain r where "r \<in> set results" "d \<in> set (snd r)" by auto
  then show ?thesis using that [of "fst r" "snd r" d] \<open>md_peer_id d = p\<close> by simp
qed

lemma peer_means_map_of:
  assumes "peer_means_of ops d = Inr pm"
  shows "map_of pm p = (case map_of d p of None \<Rightarrow> None
                        | Some xs \<Rightarrow> (case statistics_mean ops xs of Inl e \<Rightarrow> None | Inr m \<Rightarrow> Some m))
       \<and> (\<forall>xs. map_of d p = Some xs \<longrightarrow> (\<exists>m. statistics_mean ops xs = Inr m))"
  using assms unfolding peer_means_of_def
proof (induction d arbitrary: pm)
  case Nil
  then show ?case by auto
next
  case (Cons entry d)
  obtain k xs where entry: "entry = (k, xs)" by (cases entry) auto
  from Cons.prems obtain m pm' where m: "statistics_mean ops xs = Inr m"
    and pm': "map_err (\<lambda>(peer_id, scores).
                case statistics_mean ops scores of Inl e \<Rightarrow> Inl e | Inr m \<Rightarrow> Inr (peer_id, m)) d = Inr pm'"
    and pm: "pm = (k, m) # pm'"
    by (auto simp: entry split: sum.splits)
  show ?case
    using Cons.IH [OF pm'] m by (auto simp: pm entry)
qed

lemma means_agree_results:
  assumes "peer_means_of ops (peer_scores_of results) = Inr pm" "(v, ds) \<in> set results"
  shows "means_agree ops results pm ds"
proof -
  have "case spec_peer_mean ops results (md_peer_id d) of
          Inl e \<Rightarrow> False | Inr m \<Rightarrow> map_of pm (md_peer_id d) = Some m" if "d \<in> set ds" for d
  proof -
    have ne: "received_scores results (md_peer_id d) \<noteq> []"
      using received_member [OF assms(2) that] .
    then have ps: "map_of (peer_scores_of results) (md_peer_id d)
        = Some (received_scores results (md_peer_id d))"
      by (simp add: map_of_peer_scores)
    from peer_means_map_of [OF assms(1), of "md_peer_id d"] ps
    obtain m where "statistics_mean ops (received_scores results (md_peer_id d)) = Inr m"
      and "map_of pm (md_peer_id d) = Some m"
      by auto
    then show ?thesis by (simp add: spec_peer_mean_def)
  qed
  then show ?thesis by (simp add: means_agree_def list_all_iff)
qed

lemma error_loop_spec:
  assumes "means_agree ops results pm ds"
  shows "error_loop ops pm ds acc =
     (case map_err (spec_squared_deviation ops results) ds of
        Inl e \<Rightarrow> Inl e
      | Inr squares \<Rightarrow> Inr (foldl (f_add ops) acc squares))"
  using assms
proof (induction ds arbitrary: acc)
  case Nil
  then show ?case by simp
next
  case (Cons d ds)
  from Cons.prems obtain m where m: "spec_peer_mean ops results (md_peer_id d) = Inr m"
    "map_of pm (md_peer_id d) = Some m" and rest: "means_agree ops results pm ds"
    by (auto simp: means_agree_def split: sum.splits)
  show ?case
    using Cons.IH [OF rest] m
    by (auto simp: spec_squared_deviation_def split: sum.splits)
qed

lemma error_loop_validator_error:
  "means_agree ops results pm ds \<Longrightarrow>
     error_loop ops pm ds (f_zero ops) = spec_validator_error ops results ds"
  by (simp add: error_loop_spec spec_validator_error_def)

lemma update_new_key: "k \<notin> fst ` set al \<Longrightarrow> AList.update k v al = al @ [(k, v)]"
  by (induction al) auto

lemma validator_errors_loop_distinct:
  assumes "distinct (map fst rs)" "fst ` set rs \<inter> fst ` set acc = {}"
    and "\<And>v ds. (v, ds) \<in> set rs \<Longrightarrow> error_loop ops pm ds (f_zero ops) = err ds"
  shows "validator_errors_loop ops pm rs acc =
     (case map_err (\<lambda>(v, ds). err ds) rs of
        Inl e \<Rightarrow> Inl e
      | Inr es \<Rightarrow> Inr (acc @ zip (map fst rs) es))"
  using assms
proof (induction rs arbitrary: acc)
  case Nil
  then show ?case by simp
next
  case (Cons r rs)
  obtain v ds where r: "r = (v, ds)" by (cases r) auto
  have e: "error_loop ops pm ds (f_zero ops) = err ds" using Cons.prems(3) [of v ds] by (simp add: r)
  show ?case
  proof (cases "err ds")
    case (Inl x)
    then show ?thesis using e by (simp add: r)
  next
    case (Inr s)
    have new: "v \<notin> fst ` set acc" using Cons.prems(2) by (auto simp: r)
    have d: "distinct (map fst rs)" and vx: "v \<notin> fst ` set rs"
      using Cons.prems(1) by (auto simp: r)
    have disj: "fst ` set rs \<inter> fst ` set (acc @ [(v, s)]) = {}"
      using Cons.prems(2) vx by (auto simp: r)
    have "validator_errors_loop ops pm rs (acc @ [(v, s)]) =
        (case map_err (\<lambda>(v, ds). err ds) rs of
           Inl e \<Rightarrow> Inl e
         | Inr es \<Rightarrow> Inr ((acc @ [(v, s)]) @ zip (map fst rs) es))"
      by (rule Cons.IH [OF d disj]) (use Cons.prems(3) in auto)
    then show ?thesis
      using e Inr by (simp add: r update_new_key [OF new] split: sum.splits)
  qed
qed

lemma map_err_length: "map_err g xs = Inr ys \<Longrightarrow> length ys = length xs"
  by (simp add: map_err_Inr_iff list_all2_lengthD)

lemma distinct_append_score:
  "distinct (map fst d) \<Longrightarrow> distinct (map fst (append_score d k x))"
  by (simp add: append_score_def distinct_update)

lemma distinct_fold_inner:
  "distinct (map fst acc) \<Longrightarrow> distinct (map fst (fold (\<lambda>score_obj peer_scores.
        append_score peer_scores (md_peer_id score_obj) (md_score score_obj)) ds acc))"
  by (induction ds arbitrary: acc) (simp_all add: distinct_append_score)

lemma distinct_peer_scores: "distinct (map fst (peer_scores_of results))"
proof -
  have "distinct (map fst acc) \<Longrightarrow> distinct (map fst (fold (\<lambda>(validator_peer_id, round_scores) peer_scores.
             fold (\<lambda>score_obj peer_scores. append_score peer_scores (md_peer_id score_obj) (md_score score_obj))
                  round_scores peer_scores) rs acc))" for rs :: "(string \<times> 'a MathData list) list" and acc
  proof (induction rs arbitrary: acc)
    case Nil
    then show ?case by simp
  next
    case (Cons r rs)
    obtain v ds where r: "r = (v, ds)" by (cases r) auto
    show ?case using Cons by (simp add: r distinct_fold_inner)
  qed
  then show ?thesis unfolding peer_scores_of_def by simp
qed

lemma map_err_member_Inl:
  "x \<in> set xs \<Longrightarrow> g x = Inl e \<Longrightarrow> \<exists>e'. map_err g xs = Inl e'"
  by (induction xs) (auto split: sum.splits)

lemma failed_mean_fails_spec:
  assumes "peer_means_of ops (peer_scores_of results) = Inl e"
  shows "\<exists>e'. map_err (spec_consensus_score ops results) results = Inl e'"
proof -
  from map_err_Inl [OF assms [unfolded peer_means_of_def]]
  obtain p xs where in_ps: "(p, xs) \<in> set (peer_scores_of results)"
    and bad: "statistics_mean ops xs = Inl e"
    by (auto split: sum.splits)
  have "map_of (peer_scores_of results) p = Some xs"
    by (rule map_of_is_SomeI [OF distinct_peer_scores in_ps])
  then have xs: "xs = received_scores results p" and ne: "received_scores results p \<noteq> []"
    by (auto simp: map_of_peer_scores split: if_splits)
  from received_nonempty_member [OF ne] obtain v ds d
    where vds: "(v, ds) \<in> set results" and d: "d \<in> set ds" "md_peer_id d = p" by blast
  have "spec_squared_deviation ops results d = Inl e"
    using bad xs d(2) by (simp add: spec_squared_deviation_def spec_peer_mean_def)
  then obtain e1 where "map_err (spec_squared_deviation ops results) ds = Inl e1"
    using map_err_member_Inl [OF d(1)] by blast
  then have "spec_consensus_score ops results (v, ds) = Inl e1"
    by (simp add: spec_consensus_score_def spec_validator_score_def spec_validator_error_def)
  then show ?thesis using map_err_member_Inl [OF vds] by blast
qed

lemma failed_error_fails_spec:
  assumes "map_err (\<lambda>(v, ds). spec_validator_error ops results ds) results = Inl e"
  shows "\<exists>e'. map_err (spec_consensus_score ops results) results = Inl e'"
proof -
  from map_err_Inl [OF assms] obtain v ds where vds: "(v, ds) \<in> set results" by auto
  have "spec_max_error ops results = Inl e" using assms by (simp add: spec_max_error_def)
  then have "\<exists>e1. spec_consensus_score ops results (v, ds) = Inl e1"
    by (simp add: spec_consensus_score_def spec_validator_score_def split: sum.splits)
  then show ?thesis using map_err_member_Inl [OF vds] by blast
qed

lemma score_verifiers_spec:
  assumes dist: "distinct (map fst results)"
  shows "score_verifiers ops results = Inr out
     \<longleftrightarrow> map_err (spec_consensus_score ops results) results = Inr out"
proof (cases "peer_means_of ops (peer_scores_of results)")
  case (Inl e)
  then have "score_verifiers ops results = Inl e" by (simp add: score_verifiers_def)
  then show ?thesis using failed_mean_fails_spec [OF Inl] by auto
next
  case pm: (Inr pm)
  let ?E = "\<lambda>(v, ds). spec_validator_error ops results ds"
  have loop: "validator_errors_loop ops pm results [] =
     (case map_err ?E results of Inl e \<Rightarrow> Inl e | Inr es \<Rightarrow> Inr ([] @ zip (map fst results) es))"
    by (rule validator_errors_loop_distinct [OF dist])
       (simp_all add: error_loop_validator_error means_agree_results [OF pm])
  show ?thesis
  proof (cases "map_err ?E results")
    case (Inl e)
    then have "score_verifiers ops results = Inl e"
      using pm loop by (simp add: score_verifiers_def)
    then show ?thesis using failed_error_fails_spec [OF Inl] by auto
  next
    case es: (Inr es)
    let ?errs = "zip (map fst results) es"
    let ?mx = "max_default ops es (f_one ops)"
    let ?G = "\<lambda>(peer_id, error).
                    case f_div ops error (f_add ops ?mx (f_epsilon ops)) of
                      Inl e \<Rightarrow> Inl e
                    | Inr q \<Rightarrow> Inr (peer_id, max2 ops (f_sub ops (f_one ops) q) (f_zero ops))"
    let ?H = "\<lambda>(v, ds). case spec_validator_score ops results ds of
                 Inl e \<Rightarrow> Inl e | Inr s \<Rightarrow> Inr (v, s)"
    let ?B = "\<lambda>(peer_id, s). case fixed_point ops s of
                 Inl e \<Rightarrow> Inl e | Inr n \<Rightarrow> Inr (ConsensusScores peer_id n)"
    have len: "length es = length results" using map_err_length [OF es] .
    have mx: "spec_max_error ops results = Inr ?mx" using es by (simp add: spec_max_error_def)
    have each: "spec_validator_error ops results (snd (results ! i)) = Inr (es ! i)"
      if "i < length results" for i
      using es that by (auto simp: map_err_Inr_iff list_all2_conv_all_nth case_prod_unfold)
    have snd_errs: "map snd ?errs = es" using len by (simp add: map_snd_zip)
    have "list_all2 (\<lambda>x y. ?G x = ?H y) ?errs results"
      unfolding list_all2_conv_all_nth
    proof (intro conjI allI impI)
      show "length ?errs = length results" using len by simp
    next
      fix i assume "i < length ?errs"
      then have i: "i < length results" using len by simp
      have "?errs ! i = (fst (results ! i), es ! i)" using i len by simp
      moreover have "results ! i = (fst (results ! i), snd (results ! i))" by simp
      ultimately show "?G (?errs ! i) = ?H (results ! i)"
        using each [OF i] mx
        by (simp add: case_prod_unfold spec_validator_score_def split: sum.splits)
    qed
    then have vs: "validator_scores_of ops ?errs = map_err ?H results"
      unfolding validator_scores_of_def Let_def snd_errs by (rule map_err_cong_all2)
    have code: "score_verifiers ops results =
        (case map_err ?H results of Inl e \<Rightarrow> Inl e | Inr ss \<Rightarrow> map_err ?B ss)"
      using pm loop es vs by (simp add: score_verifiers_def)
    have comp: "(\<lambda>x. case ?H x of Inl e \<Rightarrow> Inl e | Inr y \<Rightarrow> ?B y) = spec_consensus_score ops results"
      by (rule ext) (simp add: spec_consensus_score_def case_prod_unfold split: sum.splits)
    show ?thesis
      unfolding code map_err_compose comp ..
  qed
qed

lemma sum_list_constant: "\<forall>x\<in>set xs. x = c \<Longrightarrow> sum_list xs = of_nat (length xs) * (c::rat)"
  by (induction xs) (simp_all add: algebra_simps)

lemma mean_of_equal:
  assumes "rounding_exact ops" "xs \<noteq> []" "\<forall>x\<in>set xs. x = c" "f_finite ops c"
  shows "statistics_mean ops xs = Inr c"
proof -
  have fin: "list_all (f_finite ops) xs" using assms(3,4) by (auto simp: list_all_iff)
  have "\<forall>r\<in>set (map (f_to_rat ops) xs). r = f_to_rat ops c" using assms(3) by auto
  then have "sum_list (map (f_to_rat ops) xs) = of_nat (length xs) * f_to_rat ops c"
    using sum_list_constant [of "map (f_to_rat ops) xs" "f_to_rat ops c"] by simp
  then have "sum_list (map (f_to_rat ops) xs) / of_nat (length xs) = f_to_rat ops c"
    using assms(2) by simp
  moreover have "f_of_rat ops (f_to_rat ops c) = c"
    using assms(1,4) by (auto simp: rounding_exact_def)
  ultimately show ?thesis using assms(2) fin by (simp add: statistics_mean_def)
qed

text \<open>
  C4. For a dictionary \<open>results\<close> of hash-verified reveals (verifier to its list of scored
  provers) and whatever the float arithmetic is, \<open>verify_and_score_peers\<close> returns a list
  of scores exactly when, for every verifier, the following is defined (no operation in it
  raises), and then it returns these integers in the order of the dictionary: the mean
  (\<open>statistics.mean\<close>) per prover of the scores the prover received across all reveals; the
  verifier's error, the sum of the squared deviations of its scores from those means; its
  score \<open>max(1.0 - error / (max_error + 1e-8), 0.0)\<close>, \<open>max_error\<close> the greatest error; and
  \<open>int(score * 1e18)\<close>. The means the code holds are those means. In particular, when
  every score a prover received is the same finite float \<open>c\<close>, the prover's mean is \<open>c\<close>
  (rounding the exact value of a float gives the float back).
\<close>

theorem verify_and_score_peers_scores:
  assumes "distinct (map fst results)"
  shows "(score_verifiers ops results = Inr out
            \<longleftrightarrow> map_err (spec_consensus_score ops results) results = Inr out)
       \<and> (score_verifiers ops results = Inr out \<longrightarrow> map cs_peer_id out = map fst results)
       \<and> (\<forall>pm p. peer_means_of ops (peer_scores_of results) = Inr pm
                 \<and> received_scores results p \<noteq> [] \<longrightarrow>
               (\<exists>m. spec_peer_mean ops results p = Inr m \<and> map_of pm p = Some m))
       \<and> (\<forall>pm p c. peer_means_of ops (peer_scores_of results) = Inr pm
                 \<and> rounding_exact ops \<and> f_finite ops c \<and> received_scores results p \<noteq> []
                 \<and> (\<forall>x\<in>set (received_scores results p). x = c) \<longrightarrow>
               map_of pm p = Some c)"
proof (intro conjI allI impI)
  show "score_verifiers ops results = Inr out
            \<longleftrightarrow> map_err (spec_consensus_score ops results) results = Inr out"
    by (rule score_verifiers_spec [OF assms])
next
  assume "score_verifiers ops results = Inr out"
  then have "map_err (spec_consensus_score ops results) results = Inr out"
    by (simp add: score_verifiers_spec [OF assms])
  then have l: "list_all2 (\<lambda>x y. spec_consensus_score ops results x = Inr y) results out"
    by (simp add: map_err_Inr_iff)
  have "map fst results = map cs_peer_id out"
    using l
  proof (induction results out rule: list_all2_induct)
    case Nil
    then show ?case by simp
  next
    case (Cons x xs y ys)
    then show ?case
      by (auto simp: spec_consensus_score_def split: sum.splits prod.splits)
  qed
  then show "map cs_peer_id out = map fst results" by simp
next
  fix pm p
  assume a: "peer_means_of ops (peer_scores_of results) = Inr pm
                 \<and> received_scores results p \<noteq> []"
  then have ps: "map_of (peer_scores_of results) p = Some (received_scores results p)"
    by (simp add: map_of_peer_scores)
  from a peer_means_map_of [of ops "peer_scores_of results" pm p] ps
  show "\<exists>m. spec_peer_mean ops results p = Inr m \<and> map_of pm p = Some m"
    by (auto simp: spec_peer_mean_def)
next
  fix pm p c
  assume a: "peer_means_of ops (peer_scores_of results) = Inr pm
                 \<and> rounding_exact ops \<and> f_finite ops c \<and> received_scores results p \<noteq> []
                 \<and> (\<forall>x\<in>set (received_scores results p). x = c)"
  then have ps: "map_of (peer_scores_of results) p = Some (received_scores results p)"
    by (simp add: map_of_peer_scores)
  have "statistics_mean ops (received_scores results p) = Inr c"
    using a by (intro mean_of_equal) auto
  then show "map_of pm p = Some c"
    using a peer_means_map_of [of ops "peer_scores_of results" pm p] ps by auto
qed

theorem verify_and_score_peers_scores_witness:
  "distinct (map fst three_agree) \<and> rounding_exact exact_ops
   \<and> score_verifiers exact_ops three_agree =
       Inr [ConsensusScores ''V1'' (10 ^ 18), ConsensusScores ''V2'' (10 ^ 18),
            ConsensusScores ''V3'' (10 ^ 18)]
   \<and> peer_means_of exact_ops (peer_scores_of three_agree) = Inr [(''P'', 1)]"
proof -
  have d: "distinct (map fst three_agree)" by (simp add: three_agree_def)
  have r: "rounding_exact exact_ops" by (simp add: rounding_exact_def exact_ops_def)
  have m: "spec_peer_mean exact_ops three_agree ''P'' = Inr 1"
    by (simp add: spec_peer_mean_def received_scores_def three_agree_def scored_def
        statistics_mean_def exact_ops_def)
  have e: "spec_validator_error exact_ops three_agree [scored ''P'' 1] = Inr 0"
    using m by (simp add: spec_validator_error_def spec_squared_deviation_def scored_def)
      (simp add: exact_ops_def)
  have me: "map_err (\<lambda>(v, ds). E ds) three_agree = Inr [0, 0, 0]"
    if "E [scored ''P'' 1] = Inr (0::rat)" for E :: "rat MathData list \<Rightarrow> py_error + rat"
    using that by (simp add: three_agree_def)
  have mx: "spec_max_error exact_ops three_agree = Inr 0"
    unfolding spec_max_error_def
      me [of "spec_validator_error exact_ops three_agree", OF e]
    by (simp add: max_default_def max2_def exact_ops_def)
  have sc: "spec_consensus_score exact_ops three_agree (v, [scored ''P'' 1])
      = Inr (ConsensusScores v (10 ^ 18))" for v
    using e mx
    by (simp add: spec_consensus_score_def spec_validator_score_def)
       (simp add: exact_ops_def max2_def fixed_point_def)
  have mc: "map_err C three_agree =
       Inr [ConsensusScores ''V1'' (10 ^ 18), ConsensusScores ''V2'' (10 ^ 18),
            ConsensusScores ''V3'' (10 ^ 18)]"
    if "\<And>v. C (v, [scored ''P'' 1]) = Inr (ConsensusScores v (10 ^ 18))"
    for C :: "string \<times> rat MathData list \<Rightarrow> py_error + ConsensusScores"
    using that by (simp add: three_agree_def)
  have spec: "map_err (spec_consensus_score exact_ops three_agree) three_agree =
       Inr [ConsensusScores ''V1'' (10 ^ 18), ConsensusScores ''V2'' (10 ^ 18),
            ConsensusScores ''V3'' (10 ^ 18)]"
    by (rule mc [of "spec_consensus_score exact_ops three_agree"]) (rule sc)
  have code: "score_verifiers exact_ops three_agree =
       Inr [ConsensusScores ''V1'' (10 ^ 18), ConsensusScores ''V2'' (10 ^ 18),
            ConsensusScores ''V3'' (10 ^ 18)]"
    using verify_and_score_peers_scores [OF d, of exact_ops] spec by blast
  have pm: "peer_means_of exact_ops (peer_scores_of three_agree) = Inr [(''P'', 1)]"
    by (simp add: three_agree_def scored_def peer_scores_of_def append_score_def
        peer_means_of_def statistics_mean_def exact_ops_def)
  show ?thesis using d r code pm by simp
qed

section \<open>Verifying the score reveals: the epochs read\<close>














end
